theory Spec2Isabelle
  imports Main "HOL-Library.AList" "HOL-Library.Sublist"
begin

section \<open>Bytes and the Python primitives the server uses\<close>

text \<open>
  The development embeds \<^verbatim>\<open>src/7 - line reversal/line-reversal.py\<close>.
  A Python \<^verbatim>\<open>bytes\<close> value is a list of 8-bit characters. An exception that leaves
  \<^verbatim>\<open>datagram_received\<close> is caught and logged by the event loop, which keeps running:
  the model records it next to the session table as it stood when the exception was raised.
\<close>

type_synonym bytes = string
type_synonym addr = "string \<times> nat"
type_synonym packet = "bytes \<times> addr"

datatype exn = IndexError | ValueError | KeyError

abbreviation slash :: char where "slash \<equiv> CHR ''/''"
abbreviation nl :: char where "nl \<equiv> CHR 0x0A"
abbreviation bsl :: char where "bsl \<equiv> CHR 0x5C"

text \<open>\<^verbatim>\<open>s.split(sep, maxsplit)\<close> for a one-byte separator: at most \<open>maxsplit\<close> cuts,
  taken from the left.\<close>

fun py_split :: "char \<Rightarrow> nat \<Rightarrow> bytes \<Rightarrow> bytes list" where
  "py_split sep 0 s = [s]"
| "py_split sep (Suc n) s =
     (if sep \<in> set s
      then takeWhile (\<lambda>c. c \<noteq> sep) s # py_split sep n (tl (dropWhile (\<lambda>c. c \<noteq> sep) s))
      else [s])"

text \<open>\<^verbatim>\<open>int(b)\<close> on bytes, base 10: surrounding ASCII whitespace is skipped, one sign is
  allowed, and the digits may be separated by single underscores. Anything else raises
  ValueError (\<open>None\<close>). The interpreter's configurable limit on the number of digits is
  not part of the model.\<close>

definition py_isspace :: "char \<Rightarrow> bool" where
  "py_isspace c = (c \<in> {CHR 0x20, CHR 0x09, CHR 0x0A, CHR 0x0B, CHR 0x0C, CHR 0x0D})"

definition is_digit :: "char \<Rightarrow> bool" where
  "is_digit c = (48 \<le> (of_char c :: nat) \<and> (of_char c :: nat) \<le> 57)"

definition digit_val :: "char \<Rightarrow> int" where
  "digit_val c = of_char c - 48"

fun py_digits :: "int \<Rightarrow> bool \<Rightarrow> bytes \<Rightarrow> int option" where
  "py_digits acc us [] = (if us then None else Some acc)"
| "py_digits acc us (c # cs) =
     (if is_digit c then py_digits (10 * acc + digit_val c) False cs
      else if c = CHR ''_'' \<and> \<not> us then py_digits acc True cs
      else None)"

definition py_int :: "bytes \<Rightarrow> int option" where
  "py_int b =
     (let s = rev (dropWhile py_isspace (rev (dropWhile py_isspace b)))
      in case s of
           [] \<Rightarrow> None
         | c # cs \<Rightarrow>
             if c = CHR ''-'' then map_option uminus (py_digits 0 True cs)
             else if c = CHR ''+'' then py_digits 0 True cs
             else py_digits 0 True s)"

text \<open>\<^verbatim>\<open>str(n).encode()\<close> for a non-negative \<open>n\<close>.\<close>

definition digit_char :: "nat \<Rightarrow> char" where
  "digit_char d = char_of (48 + d)"

fun str_nat :: "nat \<Rightarrow> bytes" where
  "str_nat n = (if n < 10 then [digit_char n] else str_nat (n div 10) @ [digit_char (n mod 10)])"

declare str_nat.simps [simp del]

text \<open>\<^verbatim>\<open>xs.index(v)\<close>: the first position of \<open>v\<close>, ValueError (\<open>None\<close>) when absent.\<close>

fun py_index :: "'a list \<Rightarrow> 'a \<Rightarrow> nat option" where
  "py_index [] v = None"
| "py_index (x # xs) v = (if x = v then Some 0 else map_option Suc (py_index xs v))"

text \<open>\<^verbatim>\<open>xs[i] = v\<close>: a negative index counts from the end; out of range raises
  IndexError (\<open>None\<close>).\<close>

definition py_setitem :: "'a list \<Rightarrow> int \<Rightarrow> 'a \<Rightarrow> 'a list option" where
  "py_setitem xs i v =
     (let n = int (length xs); j = (if i < 0 then i + n else i)
      in if 0 \<le> j \<and> j < n then Some (xs[nat j := v]) else None)"

text \<open>\<^verbatim>\<open>re.split(br'(\\?.)', data)\<close>. The pattern is an optional backslash followed by
  one byte that is not a newline (\<^verbatim>\<open>.\<close> without DOTALL). A match at a backslash takes two
  bytes when the next byte exists and is not a newline, otherwise it backtracks to the
  backslash alone. The result alternates the text between matches (first argument: the
  text skipped since the last match) with the matched groups.\<close>

fun re_split_from :: "bytes \<Rightarrow> bytes \<Rightarrow> bytes list" where
  "re_split_from skipped [] = [skipped]"
| "re_split_from skipped [c] =
     (if c = nl then [skipped @ [c]] else [skipped, [c], []])"
| "re_split_from skipped (c # d # ds) =
     (if c = nl then re_split_from (skipped @ [c]) (d # ds)
      else if c = bsl \<and> d \<noteq> nl then skipped # [c, d] # re_split_from [] ds
      else skipped # [c] # re_split_from [] (d # ds))"

definition re_split :: "bytes \<Rightarrow> bytes list" where
  "re_split payload = re_split_from [] payload"

text \<open>Whether a payload holds two newline bytes next to each other.\<close>

fun adjacent_nl :: "bytes \<Rightarrow> bool" where
  "adjacent_nl (c # d # ds) = ((c = nl \<and> d = nl) \<or> adjacent_nl (d # ds))"
| "adjacent_nl _ = False"

text \<open>The claim's own reading of a payload, scanned from the left: a backslash takes the byte
  after it into one logical character of two bytes, every other byte is a logical character
  by itself (so is a backslash that ends the payload). The pair is kept as its two bytes.\<close>

fun logical_characters :: "bytes \<Rightarrow> bytes list" where
  "logical_characters (c # d # ds) =
     (if c = bsl then [c, d] # logical_characters ds else [c] # logical_characters (d # ds))"
| "logical_characters [c] = [[c]]"
| "logical_characters [] = []"

text \<open>Whether, in that reading, a backslash escapes a newline byte.\<close>

fun escaped_nl :: "bytes \<Rightarrow> bool" where
  "escaped_nl (c # d # ds) = (if c = bsl then d = nl \<or> escaped_nl ds else escaped_nl (d # ds))"
| "escaped_nl _ = False"

section \<open>Session\<close>

text \<open>The dataclass \<^verbatim>\<open>Session\<close>. Every session holds the one datagram endpoint of the
  process in \<^verbatim>\<open>transport\<close>; what is sent is collected as a list of packets instead.
  A slot of \<open>data\<close> holds one token of a payload, the empty bytes marks a hole.\<close>

record session =
  id_s :: bytes
  addr :: addr
  data :: "bytes list"
  cursor :: nat
  send_cursor :: nat
  acked_until :: int
  is_closed :: bool
  send_buffer :: "bytes list"

definition Session :: "bytes \<Rightarrow> addr \<Rightarrow> session" where
  "Session i a = \<lparr>id_s = i, addr = a, data = [], cursor = 0, send_cursor = 0,
     acked_until = 0, is_closed = False, send_buffer = []\<rparr>"

text \<open>\<^verbatim>\<open>Session.add_data\<close>: the buffer is extended with holes up to \<^verbatim>\<open>pos + len(data)\<close> (a
  count that is not positive extends nothing), then the tokens are stored one index after the
  other from \<open>pos\<close>. A negative index counts from the end, and an index before the start raises
  IndexError with the extension already made. Running out of memory on a very large position
  is not part of the model.\<close>

fun add_loop :: "int \<Rightarrow> bytes list \<Rightarrow> bytes list \<Rightarrow> bytes list \<times> exn option" where
  "add_loop i [] buf = (buf, None)"
| "add_loop i (t # ts) buf =
     (case py_setitem buf i t of
        None \<Rightarrow> (buf, Some IndexError)
      | Some buf' \<Rightarrow> add_loop (i + 1) ts buf')"

definition add_data :: "session \<Rightarrow> int \<Rightarrow> bytes list \<Rightarrow> session \<times> exn option" where
  "add_data s pos toks =
     (let new_max_size = pos + int (length toks);
          grown = data s @ replicate (nat (new_max_size - int (length (data s)))) [];
          (buf, e) = add_loop pos toks grown
      in (s\<lparr>data := buf\<rparr>, e))"

text \<open>\<^verbatim>\<open>Session.send_data\<close>: nothing for a closed session; otherwise the iterator over
  \<open>send_buffer\<close> is consumed in slices of \<open>CHUNK_SIZE\<close> slots until a slice is empty, each slice
  going out under the running \<open>cursor\<close>, which starts at zero.\<close>

definition CHUNK_SIZE :: nat where
  "CHUNK_SIZE = 512"

function send_loop :: "bytes \<Rightarrow> addr \<Rightarrow> nat \<Rightarrow> bytes list \<Rightarrow> packet list" where
  "send_loop i a cur it =
     (if take CHUNK_SIZE it = [] then []
      else (''/data/'' @ i @ ''/'' @ str_nat cur @ ''/'' @ concat (take CHUNK_SIZE it) @ ''/'', a)
           # send_loop i a (cur + CHUNK_SIZE) (drop CHUNK_SIZE it))"
  by pat_completeness auto
termination
  by (relation "measure (\<lambda>(i, a, cur, it). length it)") (auto simp: CHUNK_SIZE_def)

declare send_loop.simps [simp del]

definition send_data :: "session \<Rightarrow> packet list" where
  "send_data s = (if is_closed s then [] else send_loop (id_s s) (addr s) 0 (send_buffer s))"

text \<open>\<^verbatim>\<open>Session.handle_data\<close>: returns at once when the buffer has a hole; otherwise one
  pass over the indices from the read cursor (as it was on entry) to the end of the buffer. The
  step below is the body of that loop.\<close>

definition handle_data_step :: "nat \<Rightarrow> session \<times> packet list \<Rightarrow> session \<times> packet list" where
  "handle_data_step i st =
     (let s = fst st; out = snd st
      in if data s ! i = [nl]
         then let line = take (i - cursor s) (drop (cursor s) (data s));
                  s1 = s\<lparr>send_buffer := send_buffer s @ rev line @ [[nl]]\<rparr>;
                  out1 = out @ send_data s1
              in (s1\<lparr>cursor := i + 1, send_cursor := send_cursor s1 + (length line + 1)\<rparr>, out1)
         else (s, out))"

definition handle_data :: "session \<Rightarrow> session \<times> packet list" where
  "handle_data s =
     (if [] \<in> set (data s) then (s, [])
      else fold handle_data_step [cursor s ..< length (data s)] (s, []))"

text \<open>The order in which a session moves: its buffer never shrinks, a filled slot stays
  filled, the read cursor never goes back and the outbound buffer only grows at its end.\<close>

definition advances :: "session \<Rightarrow> session \<Rightarrow> bool" where
  "advances s s' =
     (length (data s) \<le> length (data s')
      \<and> list_all (\<lambda>i. data s ! i = [] \<or> data s' ! i \<noteq> []) [0..<length (data s)]
      \<and> cursor s \<le> cursor s'
      \<and> prefix (send_buffer s) (send_buffer s'))"

section \<open>Session table, retransmission and the protocol engine\<close>

text \<open>The global dict \<^verbatim>\<open>sessions\<close>, in insertion order.\<close>

type_synonym table = "(bytes \<times> session) list"

text \<open>\<^verbatim>\<open>maybe_retransmit\<close> walks the table and sends for every session that is not closed. It
  changes no session, so it only yields packets.\<close>

definition maybe_retransmit :: "table \<Rightarrow> packet list" where
  "maybe_retransmit T =
     concat (map (\<lambda>(k, s). if is_closed s then [] else send_data s) T)"

text \<open>\<^verbatim>\<open>LRCP.datagram_received\<close>. The result is the table afterwards, the packets handed to
  \<^verbatim>\<open>sendto\<close> in order, and the exception that ended the call, if any. Unpacking a split into
  the wrong number of names raises ValueError, as does \<^verbatim>\<open>int\<close> on bytes that are no number; a
  missing key raises KeyError. The four branches of the method are four functions here; the
  message kind is fixed once split off, so at most one of the source's \<^verbatim>\<open>if\<close> statements
  applies.\<close>

record outcome =
  sessions :: table
  sent :: "packet list"
  raised :: "exn option"

definition returns :: "table \<Rightarrow> packet list \<Rightarrow> outcome" where
  "returns T ps = \<lparr>sessions = T, sent = ps, raised = None\<rparr>"

definition raises :: "table \<Rightarrow> exn \<Rightarrow> outcome" where
  "raises T e = \<lparr>sessions = T, sent = [], raised = Some e\<rparr>"

definition recv_connect :: "table \<Rightarrow> bytes \<Rightarrow> addr \<Rightarrow> outcome" where
  "recv_connect T rest a =
     (case py_split slash 1 rest of
        [session_id] \<Rightarrow>
          (case py_int session_id of
             None \<Rightarrow> raises T ValueError
           | Some n \<Rightarrow>
               if n > 2 ^ 31 then returns T []
               else returns (if map_of T session_id = None
                          then AList.update session_id (Session session_id a) T else T)
                         [(''/ack/'' @ session_id @ ''/0/'', a)])
      | _ \<Rightarrow> raises T ValueError)"

definition ack_len :: "bytes list \<Rightarrow> nat" where
  "ack_len d = (case py_index d [] of Some i \<Rightarrow> i | None \<Rightarrow> length d)"

definition recv_data :: "table \<Rightarrow> bytes \<Rightarrow> addr \<Rightarrow> outcome" where
  "recv_data T rest a =
     (case py_split slash 2 rest of
        [session_id, pos, payload] \<Rightarrow>
          (case map_of T session_id of
             None \<Rightarrow> returns T [(''/close/'' @ session_id @ ''/'', a)]
           | Some s \<Rightarrow>
               if is_closed s then returns T [(''/close/'' @ session_id @ ''/'', a)]
               else
                 let split_data = filter (\<lambda>x. x \<noteq> []) (re_split payload)
                 in if [slash] \<in> set split_data then returns T []
                    else
                      (case py_int pos of
                         None \<Rightarrow> raises T ValueError
                       | Some p \<Rightarrow>
                           (case add_data s p split_data of
                              (s1, Some e) \<Rightarrow> raises (AList.update session_id s1 T) e
                            | (s1, None) \<Rightarrow>
                                let r = handle_data s1
                                in returns (AList.update session_id (fst r) T)
                                     (snd r @ [(''/ack/'' @ session_id @ ''/''
                                                @ str_nat (ack_len (data (fst r))) @ ''/'', a)]))))
      | _ \<Rightarrow> raises T ValueError)"

definition recv_close :: "table \<Rightarrow> bytes \<Rightarrow> addr \<Rightarrow> outcome" where
  "recv_close T rest a =
     (case py_split slash 1 rest of
        [session_id] \<Rightarrow>
          (case map_of T session_id of
             None \<Rightarrow> raises T KeyError
           | Some s \<Rightarrow>
               let r = handle_data (s\<lparr>is_closed := True\<rparr>)
               in returns (AList.update session_id (fst r) T)
                    (snd r @ [(''/close/'' @ session_id @ ''/'', a)]))
      | _ \<Rightarrow> raises T ValueError)"

definition recv_ack :: "table \<Rightarrow> bytes \<Rightarrow> addr \<Rightarrow> outcome" where
  "recv_ack T rest a =
     (case py_split slash 2 rest of
        [session_id, until] \<Rightarrow>
          (case map_of T session_id of
             None \<Rightarrow> raises T KeyError
           | Some s \<Rightarrow>
               (case py_int until of
                  None \<Rightarrow> raises T ValueError
                | Some u \<Rightarrow>
                    let s1 = s\<lparr>acked_until := u\<rparr>
                    in returns (AList.update session_id s1 T)
                         (if acked_until s1 > int (length (data s1))
                          then [(''/close/'' @ session_id @ ''/'', a)] else [])))
      | _ \<Rightarrow> raises T ValueError)"

definition datagram_received :: "table \<Rightarrow> bytes \<Rightarrow> addr \<Rightarrow> outcome" where
  "datagram_received T dgram a =
     (if dgram = [] then raises T IndexError
      else if hd dgram \<noteq> slash \<or> last dgram \<noteq> slash then returns T []
      else
        (case py_split slash 1 (butlast (tl dgram)) of
           [msg_type, rest] \<Rightarrow>
             if msg_type = ''connect'' then recv_connect T rest a
             else if msg_type = ''data'' then recv_data T rest a
             else if msg_type = ''close'' then recv_close T rest a
             else if msg_type = ''ack'' then recv_ack T rest a
             else returns T []
         | _ \<Rightarrow> raises T ValueError))"

section \<open>Parsing a framed datagram\<close>


lemma py_split_no_sep: "sep \<notin> set s \<Longrightarrow> py_split sep n s = [s]"
  by (cases n) simp_all

lemma py_split_cut:
  "sep \<notin> set x \<Longrightarrow> py_split sep (Suc n) (x @ sep # y) = x # py_split sep n y"
proof -
  assume h: "sep \<notin> set x"
  have t: "takeWhile (\<lambda>c. c \<noteq> sep) (x @ sep # y) = x"
    using h by (induction x) auto
  have d: "dropWhile (\<lambda>c. c \<noteq> sep) (x @ sep # y) = sep # y"
    using h by (induction x) auto
  show ?thesis by (simp add: t d)
qed

lemma framed:
  "datagram_received T (slash # body @ [slash]) a =
     (case py_split slash 1 body of
        [msg_type, rest] \<Rightarrow>
          if msg_type = ''connect'' then recv_connect T rest a
          else if msg_type = ''data'' then recv_data T rest a
          else if msg_type = ''close'' then recv_close T rest a
          else if msg_type = ''ack'' then recv_ack T rest a
          else returns T []
      | _ \<Rightarrow> raises T ValueError)"
  by (simp add: datagram_received_def butlast_append)

lemma update_absent: "map_of T k = None \<Longrightarrow> AList.update k v T = T @ [(k, v)]"
  by (induction T) (auto split: if_splits)

lemma connect_dgram:
  "slash \<notin> set sid \<Longrightarrow>
   datagram_received T (''/connect/'' @ sid @ ''/'') a = recv_connect T sid a"
  using framed [of T "''connect/'' @ sid" a] py_split_cut [of slash "''connect''" 0 sid]
  by simp

lemma data_dgram:
  "datagram_received T (''/data/'' @ rest @ ''/'') a = recv_data T rest a"
  using framed [of T "''data/'' @ rest" a] py_split_cut [of slash "''data''" 0 rest]
  by simp

lemma data_fields:
  "slash \<notin> set sid \<Longrightarrow> slash \<notin> set pos \<Longrightarrow>
   py_split slash 2 (sid @ ''/'' @ pos @ ''/'' @ payload) = [sid, pos, payload]"
  using py_split_cut [of slash sid 1 "pos @ ''/'' @ payload"] py_split_cut [of slash pos 0 payload]
  by (simp add: numeral_2_eq_2)

lemma recv_connect_ok:
  "slash \<notin> set sid \<Longrightarrow> py_int sid = Some n \<Longrightarrow> n \<le> 2 ^ 31 \<Longrightarrow>
   recv_connect T sid a =
     returns (if map_of T sid = None then T @ [(sid, Session sid a)] else T)
       [(''/ack/'' @ sid @ ''/0/'', a)]"
  by (simp add: recv_connect_def py_split_no_sep update_absent)




section \<open>Chunked delivery\<close>


lemma chunk_count_step:
  "0 < (L::nat) \<Longrightarrow> (L + 511) div 512 = Suc ((L - 512 + 511) div 512)"
proof (cases "L \<le> 512")
  case True
  assume "0 < L"
  then have "(L + 511) div 512 = 1" using True by (intro div_nat_eqI) simp_all
  then show ?thesis using True by simp
next
  case False
  then have "L + 511 = (L - 512 + 511) + 512" by simp
  then have "(L + 511) div 512 = ((L - 512 + 511) + 512) div 512" by simp
  also have "\<dots> = Suc ((L - 512 + 511) div 512)" by (simp only: div_add_self2)
  finally show ?thesis .
qed

lemma upt_shift: "[0..<Suc n] = 0 # map Suc [0..<n]"
  by (simp add: upt_conv_Cons map_Suc_upt del: upt_Suc)

lemma send_loop_pieces:
  "send_loop i a cur it =
     map (\<lambda>k. (''/data/'' @ i @ ''/'' @ str_nat (cur + 512 * k) @ ''/''
                @ concat (take 512 (drop (512 * k) it)) @ ''/'', a))
       [0..<(length it + 511) div 512]"
proof (induction i a cur it rule: send_loop.induct)
  case (1 i a cur it)
  show ?case
  proof (cases "it = []")
    case True
    then show ?thesis by (simp add: send_loop.simps [of i a cur "[]"])
  next
    case False
    then have pos: "0 < length it" by simp
    have ne: "take CHUNK_SIZE it \<noteq> []" using False by (simp add: CHUNK_SIZE_def)
    have IH: "send_loop i a (cur + 512) (drop 512 it) =
       map (\<lambda>k. (''/data/'' @ i @ ''/'' @ str_nat (cur + 512 + 512 * k) @ ''/''
                @ concat (take 512 (drop (512 * k) (drop 512 it))) @ ''/'', a))
         [0..<(length it - 512 + 511) div 512]"
      using "1.IH" [OF ne] by (simp add: CHUNK_SIZE_def)
    have step: "send_loop i a cur it =
        (''/data/'' @ i @ ''/'' @ str_nat cur @ ''/'' @ concat (take 512 it) @ ''/'', a)
          # send_loop i a (cur + 512) (drop 512 it)"
      using ne by (subst send_loop.simps) (simp add: CHUNK_SIZE_def)
    have idx: "\<And>k. cur + 512 * Suc k = cur + 512 + 512 * k" by simp
    have drp: "\<And>k. drop (512 * Suc k) it = drop (512 * k) (drop 512 it)"
      by (simp add: add.commute)
    show ?thesis
      unfolding step IH chunk_count_step [OF pos] upt_shift list.map map_map comp_def idx drp
      by simp
  qed
qed


section \<open>Connect and the session key\<close>

text \<open>
  Claim C7. A connect whose session id is in bounds is answered with \<^verbatim>\<open>/ack/SESSION/0/\<close>
  whether or not the session exists; an absent session is created at the end of the table,
  and a table that already holds the session is left exactly as it was.
\<close>

theorem connect_replies_ack_and_is_idempotent:
  assumes "slash \<notin> set sid" and "py_int sid = Some n" and "0 \<le> n" and "n < 2 ^ 31"
  shows "sent (datagram_received T (''/connect/'' @ sid @ ''/'') a) = [(''/ack/'' @ sid @ ''/0/'', a)]
       \<and> raised (datagram_received T (''/connect/'' @ sid @ ''/'') a) = None
       \<and> (map_of T sid = None \<longrightarrow>
            sessions (datagram_received T (''/connect/'' @ sid @ ''/'') a) = T @ [(sid, Session sid a)])
       \<and> (\<forall>s. map_of T sid = Some s \<longrightarrow>
            sessions (datagram_received T (''/connect/'' @ sid @ ''/'') a) = T)"
proof -
  have le: "n \<le> 2 ^ 31" using assms(4) by simp
  have "datagram_received T (''/connect/'' @ sid @ ''/'') a =
      returns (if map_of T sid = None then T @ [(sid, Session sid a)] else T)
        [(''/ack/'' @ sid @ ''/0/'', a)]"
    unfolding connect_dgram [OF assms(1)] by (rule recv_connect_ok [OF assms(1,2) le])
  then show ?thesis by (simp add: returns_def)
qed

lemma py_int_12345: "py_int ''12345'' = Some 12345"
  by code_simp

theorem connect_replies_ack_and_is_idempotent_witness:
  "slash \<notin> set ''12345'' \<and> py_int ''12345'' = Some 12345 \<and> (0::int) \<le> 12345 \<and> (12345::int) < 2 ^ 31
   \<and> sent (datagram_received [] ''/connect/12345/'' (''peer'', 4000)) = [(''/ack/12345/0/'', (''peer'', 4000))]
   \<and> sessions (datagram_received [] ''/connect/12345/'' (''peer'', 4000)) = [(''12345'', Session ''12345'' (''peer'', 4000))]
   \<and> sessions (datagram_received [(''12345'', (Session ''12345'' (''peer'', 4000))\<lparr>cursor := 3\<rparr>)] ''/connect/12345/'' (''other'', 1))
        = [(''12345'', (Session ''12345'' (''peer'', 4000))\<lparr>cursor := 3\<rparr>)]"
  using connect_replies_ack_and_is_idempotent [of "''12345''" 12345 "[]" "(''peer'', 4000)"]
    connect_replies_ack_and_is_idempotent [of "''12345''" 12345 "[(''12345'', (Session ''12345'' (''peer'', 4000))\<lparr>cursor := 3\<rparr>)]" "(''other'', 1)"]
    py_int_12345
  by simp

text \<open>
  Claim C4. The guard of the connect branch is \<^verbatim>\<open>int(session_id) > 2 ** 31\<close>, so a connect
  with session id exactly \<open>2^31\<close> is not ignored: the session is created and acknowledged.
\<close>

theorem connect_at_bound_creates_session:
  "datagram_received [] ''/connect/2147483648/'' (''peer'', 4000) =
     \<lparr>sessions = [(''2147483648'', Session ''2147483648'' (''peer'', 4000))],
      sent = [(''/ack/2147483648/0/'', (''peer'', 4000))], raised = None\<rparr>"
  by code_simp

theorem connect_at_bound_creates_session_witness:
  "map_of (sessions (datagram_received [] ''/connect/2147483648/'' (''peer'', 4000))) ''2147483648''
     = Some (Session ''2147483648'' (''peer'', 4000))
   \<and> sent (datagram_received [] ''/connect/2147483648/'' (''peer'', 4000)) \<noteq> []"
  using connect_at_bound_creates_session by simp

text \<open>
  Claim C10. The table is keyed by the bytes of the SESSION field. Two fields with the same
  numeric value and different text are different keys: after a connect under one text, a
  data datagram under the other finds no session and is answered with a close.
\<close>

theorem session_key_is_text:
  assumes "slash \<notin> set sid1" and "slash \<notin> set sid2" and "slash \<notin> set pos"
    and "sid1 \<noteq> sid2" and "py_int sid1 = Some n" and "py_int sid2 = Some n"
    and "0 \<le> n" and "n < 2 ^ 31"
    and "map_of T sid1 = None" and "map_of T sid2 = None"
    and "T1 = sessions (datagram_received T (''/connect/'' @ sid1 @ ''/'') a)"
  shows "map_of T1 sid1 = Some (Session sid1 a) \<and> map_of T1 sid2 = None
       \<and> datagram_received T1 (''/data/'' @ sid2 @ ''/'' @ pos @ ''/'' @ payload @ ''/'') a
           = returns T1 [(''/close/'' @ sid2 @ ''/'', a)]"
proof -
  have le: "n \<le> 2 ^ 31" using assms(8) by simp
  have "datagram_received T (''/connect/'' @ sid1 @ ''/'') a =
      returns (T @ [(sid1, Session sid1 a)]) [(''/ack/'' @ sid1 @ ''/0/'', a)]"
    unfolding connect_dgram [OF assms(1)] recv_connect_ok [OF assms(1,5) le]
    using assms(9) by simp
  then have T1: "T1 = T @ [(sid1, Session sid1 a)]"
    using assms(11) by (simp add: returns_def)
  have m1: "map_of T1 sid1 = Some (Session sid1 a)"
    using assms(9) by (simp add: T1 map_add_def)
  have m2: "map_of T1 sid2 = None"
    using assms(4,10) by (simp add: T1 map_add_def)
  have "datagram_received T1 (''/data/'' @ (sid2 @ ''/'' @ pos @ ''/'' @ payload) @ ''/'') a
          = returns T1 [(''/close/'' @ sid2 @ ''/'', a)]"
    unfolding data_dgram using data_fields [OF assms(2,3), of payload] m2
    by (simp add: recv_data_def)
  then show ?thesis using m1 m2 by simp
qed

lemma py_int_07: "py_int ''07'' = Some 7" by code_simp
lemma py_int_7: "py_int ''7'' = Some 7" by code_simp
lemma py_int_plus7: "py_int ''+7'' = Some 7" by code_simp

theorem session_key_is_text_witness:
  "py_int ''07'' = Some 7 \<and> py_int ''7'' = Some 7 \<and> ''07'' \<noteq> ''7''
   \<and> map_of (sessions (datagram_received [] ''/connect/07/'' (''peer'', 4000))) ''7'' = None
   \<and> datagram_received (sessions (datagram_received [] ''/connect/07/'' (''peer'', 4000))) ''/data/7/0/hi/'' (''peer'', 4000)
       = returns (sessions (datagram_received [] ''/connect/07/'' (''peer'', 4000))) [(''/close/7/'', (''peer'', 4000))]
   \<and> py_int ''+7'' = Some 7
   \<and> datagram_received (sessions (datagram_received [] ''/connect/+7/'' (''peer'', 4000))) ''/data/7/0/hi/'' (''peer'', 4000)
       = returns (sessions (datagram_received [] ''/connect/+7/'' (''peer'', 4000))) [(''/close/7/'', (''peer'', 4000))]"
  using session_key_is_text [of "''07''" "''7''" "''0''" 7 "[]" "sessions (datagram_received [] ''/connect/07/'' (''peer'', 4000))" "(''peer'', 4000)" "''hi''"]
    session_key_is_text [of "''+7''" "''7''" "''0''" 7 "[]" "sessions (datagram_received [] ''/connect/+7/'' (''peer'', 4000))" "(''peer'', 4000)" "''hi''"]
    py_int_07 py_int_7 py_int_plus7
  by simp


section \<open>Outbound delivery\<close>

lemma pieces_prefix:
  "concat (map (\<lambda>k. take c (drop (c * k) xs)) [0..<n]) = take (c * n) xs"
proof (induction n)
  case 0
  show ?case by simp
next
  case (Suc n)
  have "take (c * Suc n) xs = take (c * n) xs @ take c (drop (c * n) xs)"
    using take_add [of "c * n" c xs] by (simp add: add.commute)
  then show ?case using Suc by simp
qed

lemma pieces_cover:
  "concat (map (\<lambda>k. take 512 (drop (512 * k) xs)) [0..<(length xs + 511) div 512]) = xs"
proof -
  have "length xs \<le> 512 * ((length xs + 511) div 512)" by arith
  then show ?thesis unfolding pieces_prefix by simp
qed

lemma maybe_retransmit_send_data:
  "maybe_retransmit T = concat (map (\<lambda>(k, s). send_data s) T)"
proof -
  have "(\<lambda>(k, s). if is_closed s then [] else send_data s) = (\<lambda>(k :: bytes, s). send_data s)"
    by (auto simp: send_data_def fun_eq_iff)
  then show ?thesis by (simp add: maybe_retransmit_def)
qed

text \<open>Delivery counts in buffer slots: slice \<open>k\<close> holds the slots from \<open>512 k\<close> on and goes out
  under the number \<open>512 k\<close>.\<close>

lemma send_data_pieces:
  "send_data s =
     (if is_closed s then []
      else map (\<lambda>k. (''/data/'' @ id_s s @ ''/'' @ str_nat (512 * k) @ ''/''
                      @ concat (take 512 (drop (512 * k) (send_buffer s))) @ ''/'', addr s))
             [0..<(length (send_buffer s) + 511) div 512])"
  by (simp add: send_data_def send_loop_pieces)

section \<open>Runs of the engine on concrete datagrams\<close>

text \<open>
  Claim C1. The ack branch compares the claimed length with \<^verbatim>\<open>len(session.data)\<close>, the
  reassembly buffer, not with what was placed in the outbound buffer. After five bytes without
  a newline nothing has been placed in \<open>send_buffer\<close>; an ack claiming three bytes is stored in
  \<open>acked_until\<close> and no close is sent.
\<close>

theorem ack_beyond_outbound_sends_no_close:
  "datagram_received
     (sessions (datagram_received
        (sessions (datagram_received [] ''/connect/1/'' (''peer'', 4000)))
        ''/data/1/0/hello/'' (''peer'', 4000)))
     ''/ack/1/3/'' (''peer'', 4000)
   = \<lparr>sessions = [(''1'', \<lparr>id_s = ''1'', addr = (''peer'', 4000),
                       data = [''h'', ''e'', ''l'', ''l'', ''o''], cursor = 0, send_cursor = 0,
                       acked_until = 3, is_closed = False, send_buffer = []\<rparr>)],
      sent = [], raised = None\<rparr>"
  by code_simp

theorem ack_beyond_outbound_sends_no_close_witness:
  "sent (datagram_received
     (sessions (datagram_received
        (sessions (datagram_received [] ''/connect/1/'' (''peer'', 4000)))
        ''/data/1/0/hello/'' (''peer'', 4000)))
     ''/ack/1/3/'' (''peer'', 4000)) = []"
  using ack_beyond_outbound_sends_no_close by simp

text \<open>
  Claim C5. The payload \<^verbatim>\<open>ab\n\ncd\n\<close> holds the lines \<^verbatim>\<open>ab\<close>, the empty line and \<^verbatim>\<open>cd\<close>.
  The pattern of the tokenizer does not match a newline, so the two adjacent newlines reach the
  buffer as one slot that is not equal to \<^verbatim>\<open>b'\n'\<close>; line extraction finds one line of five
  slots and sends \<^verbatim>\<open>dc\n\nba\n\<close>, where reversing each line gives \<^verbatim>\<open>ba\n\ndc\n\<close>.
\<close>

theorem adjacent_newlines_reversed_as_one_line:
  "datagram_received (sessions (datagram_received [] ''/connect/1/'' (''peer'', 4000)))
     (''/data/1/0/ab'' @ [nl, nl] @ ''cd'' @ [nl] @ ''/'') (''peer'', 4000)
   = \<lparr>sessions = [(''1'', \<lparr>id_s = ''1'', addr = (''peer'', 4000),
                       data = [''a'', ''b'', [nl, nl], ''c'', ''d'', [nl]], cursor = 6,
                       send_cursor = 6, acked_until = 0, is_closed = False,
                       send_buffer = [''d'', ''c'', [nl, nl], ''b'', ''a'', [nl]]\<rparr>)],
      sent = [(''/data/1/0/dc'' @ [nl, nl] @ ''ba'' @ [nl] @ ''/'', (''peer'', 4000)),
              (''/ack/1/6/'', (''peer'', 4000))],
      raised = None\<rparr>"
  by code_simp

theorem adjacent_newlines_reversed_as_one_line_witness:
  "concat (send_buffer (snd (hd (sessions
     (datagram_received (sessions (datagram_received [] ''/connect/1/'' (''peer'', 4000)))
        (''/data/1/0/ab'' @ [nl, nl] @ ''cd'' @ [nl] @ ''/'') (''peer'', 4000))))))
   \<noteq> ''ba'' @ [nl] @ [nl] @ ''dc'' @ [nl]"
  using adjacent_newlines_reversed_as_one_line by simp


section \<open>The reassembly buffer, line extraction and the remaining branches\<close>

subsection \<open>Writing a payload into the buffer\<close>

lemma py_setitem_Some:
  "py_setitem xs i v = Some ys \<Longrightarrow>
     length ys = length xs \<and> (\<forall>j < length xs. ys ! j = xs ! j \<or> ys ! j = v)"
  by (auto simp: py_setitem_def Let_def nth_list_update split: if_splits)

lemma add_loop_length: "length (fst (add_loop i ts buf)) = length buf"
proof (induction ts arbitrary: i buf)
  case Nil
  show ?case by simp
next
  case (Cons t ts)
  show ?case
  proof (cases "py_setitem buf i t")
    case None
    then show ?thesis by simp
  next
    case (Some buf')
    then show ?thesis using Cons [of "i + 1" buf'] py_setitem_Some [OF Some] by simp
  qed
qed

lemma add_loop_keeps_filled:
  "[] \<notin> set ts \<Longrightarrow> j < length buf \<Longrightarrow> buf ! j \<noteq> [] \<Longrightarrow> fst (add_loop i ts buf) ! j \<noteq> []"
proof (induction ts arbitrary: i buf)
  case Nil
  then show ?case by simp
next
  case (Cons t ts)
  show ?case
  proof (cases "py_setitem buf i t")
    case None
    then show ?thesis using Cons.prems by simp
  next
    case (Some buf')
    have t: "t \<noteq> []" and ts: "[] \<notin> set ts" using Cons.prems(1) by auto
    have len: "length buf' = length buf" and
      slot: "buf' ! j = buf ! j \<or> buf' ! j = t"
      using py_setitem_Some [OF Some] Cons.prems(2) by auto
    have "buf' ! j \<noteq> []" using slot t Cons.prems(3) by auto
    then have "fst (add_loop (i + 1) ts buf') ! j \<noteq> []"
      using Cons.IH [OF ts, of buf' "i + 1"] len Cons.prems(2) by simp
    then show ?thesis using Some by simp
  qed
qed

lemma add_loop_in_range:
  "p + length ts \<le> length buf \<Longrightarrow>
   add_loop (int p) ts buf = (take p buf @ ts @ drop (p + length ts) buf, None)"
proof (induction ts arbitrary: p buf)
  case Nil
  then show ?case by simp
next
  case (Cons t ts)
  have p: "p < length buf" using Cons.prems by simp
  have set: "py_setitem buf (int p) t = Some (buf[p := t])"
    using p by (simp add: py_setitem_def)
  have next_p: "int p + 1 = int (Suc p)" by simp
  have "add_loop (int (Suc p)) ts (buf[p := t]) =
      (take (Suc p) (buf[p := t]) @ ts @ drop (Suc p + length ts) (buf[p := t]), None)"
    using Cons.IH [of "Suc p" "buf[p := t]"] Cons.prems by simp
  moreover have "take (Suc p) (buf[p := t]) = take p buf @ [t]"
    using p by (simp add: take_Suc_conv_app_nth)
  moreover have "drop (Suc p + length ts) (buf[p := t]) = drop (Suc p + length ts) buf"
    by simp
  ultimately show ?case using set by (simp add: next_p del: of_nat_Suc)
qed

lemma add_data_alt:
  "add_data s p toks =
     (s\<lparr>data := fst (add_loop p toks
         (data s @ replicate (nat (p + int (length toks) - int (length (data s)))) []))\<rparr>,
      snd (add_loop p toks
         (data s @ replicate (nat (p + int (length toks) - int (length (data s)))) [])))"
  by (simp add: add_data_def Let_def case_prod_beta)

lemma add_data_fields:
  "fst (add_data s p toks) = s\<lparr>data := data (fst (add_data s p toks))\<rparr>"
  by (simp add: add_data_alt)

lemma add_data_length:
  "length (data (fst (add_data s p toks)))
     = length (data s) + nat (p + int (length toks) - int (length (data s)))"
  using add_loop_length [of p toks "data s @ replicate (nat (p + int (length toks) - int (length (data s)))) []"]
  by (simp add: add_data_alt)

lemma add_data_keeps_filled:
  assumes "[] \<notin> set toks" and "j < length (data s)" and "data s ! j \<noteq> []"
  shows "data (fst (add_data s p toks)) ! j \<noteq> []"
proof -
  let ?g = "data s @ replicate (nat (p + int (length toks) - int (length (data s)))) []"
  have "j < length ?g" and "?g ! j \<noteq> []" using assms(2,3) by (simp_all add: nth_append)
  then have "fst (add_loop p toks ?g) ! j \<noteq> []"
    using add_loop_keeps_filled [OF assms(1)] by blast
  then show ?thesis by (simp add: add_data_alt)
qed

lemma add_data_in_range:
  assumes "p + length toks \<le> length (data s)"
  shows "add_data s (int p) toks
     = (s\<lparr>data := take p (data s) @ toks @ drop (p + length toks) (data s)\<rparr>, None)"
proof -
  have "nat (int p + int (length toks) - int (length (data s))) = 0" using assms by simp
  then show ?thesis using add_loop_in_range [OF assms]
    by (simp add: add_data_alt)
qed

lemma add_data_nonneg:
  "add_data s (int p) toks
     = (s\<lparr>data := take p (data s @ replicate (p + length toks - length (data s)) [])
                   @ toks
                   @ drop (p + length toks) (data s @ replicate (p + length toks - length (data s)) [])\<rparr>,
        None)"
proof -
  let ?g = "data s @ replicate (p + length toks - length (data s)) []"
  have n: "nat (int p + int (length toks) - int (length (data s))) = p + length toks - length (data s)"
    by simp
  have "p + length toks \<le> length ?g" by simp
  then show ?thesis using add_loop_in_range [of p toks ?g]
    by (simp add: add_data_alt n del: of_nat_add)
qed


subsection \<open>Line extraction\<close>

lemma handle_data_step_fields:
  "data (fst (handle_data_step i st)) = data (fst st)
   \<and> is_closed (fst (handle_data_step i st)) = is_closed (fst st)
   \<and> id_s (fst (handle_data_step i st)) = id_s (fst st)
   \<and> addr (fst (handle_data_step i st)) = addr (fst st)
   \<and> acked_until (fst (handle_data_step i st)) = acked_until (fst st)"
  by (simp add: handle_data_step_def Let_def)

lemma handle_data_step_no_newline:
  "data (fst st) ! i \<noteq> [nl] \<Longrightarrow> handle_data_step i st = st"
  by (simp add: handle_data_step_def Let_def)

lemma handle_data_step_newline:
  "data (fst st) ! i = [nl] \<Longrightarrow>
   cursor (fst (handle_data_step i st)) = Suc i
   \<and> send_buffer (fst (handle_data_step i st))
       = send_buffer (fst st)
         @ rev (take (i - cursor (fst st)) (drop (cursor (fst st)) (data (fst st)))) @ [[nl]]"
  by (simp add: handle_data_step_def Let_def)

text \<open>The state of the loop after the indices from the read cursor up to \<open>n\<close>.\<close>

lemma handle_data_loop:
  "data (fst (fold handle_data_step [cursor s ..< n] (s, out))) = data s
   \<and> is_closed (fst (fold handle_data_step [cursor s ..< n] (s, out))) = is_closed s
   \<and> id_s (fst (fold handle_data_step [cursor s ..< n] (s, out))) = id_s s
   \<and> addr (fst (fold handle_data_step [cursor s ..< n] (s, out))) = addr s
   \<and> acked_until (fst (fold handle_data_step [cursor s ..< n] (s, out))) = acked_until s
   \<and> cursor s \<le> cursor (fst (fold handle_data_step [cursor s ..< n] (s, out)))
   \<and> cursor (fst (fold handle_data_step [cursor s ..< n] (s, out))) \<le> max (cursor s) n
   \<and> (\<forall>i. cursor (fst (fold handle_data_step [cursor s ..< n] (s, out))) \<le> i \<and> i < n
          \<longrightarrow> data s ! i \<noteq> [nl])
   \<and> prefix (send_buffer s) (send_buffer (fst (fold handle_data_step [cursor s ..< n] (s, out))))"
proof (induction n)
  case 0
  show ?case by simp
next
  case (Suc n)
  show ?case
  proof (cases "cursor s \<le> n")
    case False
    then show ?thesis by auto
  next
    case True
    let ?st = "fold handle_data_step [cursor s ..< n] (s, out)"
    have unroll: "fold handle_data_step [cursor s ..< Suc n] (s, out) = handle_data_step n ?st"
      using True by simp
    have d: "data (fst ?st) = data s" using Suc by blast
    show ?thesis
    proof (cases "data s ! n = [nl]")
      case False
      then have "handle_data_step n ?st = ?st"
        using d by (simp add: handle_data_step_no_newline)
      then show ?thesis unfolding unroll using Suc False True
        by (auto simp: less_Suc_eq max_def)
    next
      case nl: True
      then have h: "data (fst ?st) ! n = [nl]" using d by simp
      have c: "cursor (fst (handle_data_step n ?st)) = Suc n"
        and b: "send_buffer (fst (handle_data_step n ?st))
           = send_buffer (fst ?st)
             @ rev (take (n - cursor (fst ?st)) (drop (cursor (fst ?st)) (data (fst ?st)))) @ [[nl]]"
        using handle_data_step_newline [OF h] by blast+
      have p: "prefix (send_buffer s) (send_buffer (fst (handle_data_step n ?st)))"
        unfolding b using Suc by (meson prefix_order.trans prefixI)
      show ?thesis unfolding unroll
        using handle_data_step_fields [of n ?st] Suc c p True
        by (auto simp: max_def)
    qed
  qed
qed

lemma handle_data_fields:
  "data (fst (handle_data s)) = data s
   \<and> is_closed (fst (handle_data s)) = is_closed s
   \<and> id_s (fst (handle_data s)) = id_s s
   \<and> addr (fst (handle_data s)) = addr s
   \<and> acked_until (fst (handle_data s)) = acked_until s
   \<and> cursor s \<le> cursor (fst (handle_data s))
   \<and> prefix (send_buffer s) (send_buffer (fst (handle_data s)))"
  using handle_data_loop [of s "length (data s)" "[]"]
  by (simp add: handle_data_def)

lemma handle_data_exhausts:
  "[] \<notin> set (data s) \<Longrightarrow> cursor (fst (handle_data s)) \<le> i \<Longrightarrow> i < length (data s) \<Longrightarrow>
   data s ! i \<noteq> [nl]"
  using handle_data_loop [of s "length (data s)" "[]"]
  by (simp add: handle_data_def)

lemma handle_data_loop_idle:
  "(\<forall>i \<in> set xs. data (fst st) ! i \<noteq> [nl]) \<Longrightarrow> fold handle_data_step xs st = st"
  by (induction xs arbitrary: st) (simp_all add: handle_data_step_no_newline)

lemma handle_data_twice:
  "handle_data (fst (handle_data s)) = (fst (handle_data s), [])"
proof (cases "[] \<in> set (data s)")
  case True
  then show ?thesis by (simp add: handle_data_def)
next
  case False
  let ?s = "fst (handle_data s)"
  have d: "data ?s = data s" using handle_data_fields by blast
  have "\<forall>i \<in> set [cursor ?s ..< length (data ?s)]. data (fst (?s, [] :: packet list)) ! i \<noteq> [nl]"
    using handle_data_exhausts [OF False] d by simp
  then have "fold handle_data_step [cursor ?s ..< length (data ?s)] (?s, []) = (?s, [])"
    by (rule handle_data_loop_idle)
  then show ?thesis using False d by (simp add: handle_data_def [of ?s])
qed


subsection \<open>The data branch on an open session\<close>

lemma py_index_None: "py_index xs v = None \<longleftrightarrow> v \<notin> set xs"
  by (induction xs) auto

lemma py_index_Some:
  "py_index xs v = Some i \<Longrightarrow> i < length xs \<and> xs ! i = v \<and> (\<forall>j < i. xs ! j \<noteq> v)"
proof (induction xs arbitrary: i)
  case Nil
  then show ?case by simp
next
  case (Cons x xs)
  show ?case
  proof (cases "x = v")
    case True
    then show ?thesis using Cons.prems by simp
  next
    case False
    then obtain k where k: "py_index xs v = Some k" and i: "i = Suc k"
      using Cons.prems by auto
    show ?thesis using Cons.IH [OF k] False i by (auto simp: less_Suc_eq_0_disj)
  qed
qed

lemma ack_len_hole:
  "[] \<in> set d \<Longrightarrow> ack_len d < length d \<and> d ! ack_len d = [] \<and> (\<forall>j < ack_len d. d ! j \<noteq> [])"
proof -
  assume "[] \<in> set d"
  then obtain i where i: "py_index d [] = Some i"
    using py_index_None [of d "[]"] by (cases "py_index d []") auto
  show ?thesis using py_index_Some [OF i] by (simp add: ack_len_def i)
qed

lemma ack_len_full: "[] \<notin> set d \<Longrightarrow> ack_len d = length d"
  using py_index_None [of d "[]"] by (simp add: ack_len_def)

lemma map_of_update: "map_of (AList.update k v T) j = (if j = k then Some v else map_of T j)"
  by (simp add: update_conv')

lemma data_dgram_fields:
  "''/data/'' @ sid @ ''/'' @ pos @ ''/'' @ payload @ ''/''
     = ''/data/'' @ (sid @ ''/'' @ pos @ ''/'' @ payload) @ ''/''"
  by simp

lemma recv_data_open:
  assumes "slash \<notin> set sid" and "slash \<notin> set pos"
    and "map_of T sid = Some s" and "\<not> is_closed s"
    and "[slash] \<notin> set (filter (\<lambda>x. x \<noteq> []) (re_split payload))"
    and "py_int pos = Some p"
  shows "datagram_received T (''/data/'' @ sid @ ''/'' @ pos @ ''/'' @ payload @ ''/'') a =
     (case snd (add_data s p (filter (\<lambda>x. x \<noteq> []) (re_split payload))) of
        Some e \<Rightarrow>
          raises (AList.update sid (fst (add_data s p (filter (\<lambda>x. x \<noteq> []) (re_split payload)))) T) e
      | None \<Rightarrow>
          returns
            (AList.update sid
               (fst (handle_data (fst (add_data s p (filter (\<lambda>x. x \<noteq> []) (re_split payload)))))) T)
            (snd (handle_data (fst (add_data s p (filter (\<lambda>x. x \<noteq> []) (re_split payload)))))
             @ [(''/ack/'' @ sid @ ''/''
                 @ str_nat (ack_len (data (fst (add_data s p (filter (\<lambda>x. x \<noteq> []) (re_split payload))))))
                 @ ''/'', a)]))"
proof -
  have d: "\<And>x. data (fst (handle_data x)) = data x"
    using handle_data_fields by blast
  show ?thesis
    unfolding data_dgram_fields data_dgram recv_data_def data_fields [OF assms(1,2)]
    using assms(3-6)
    by (simp add: Let_def d split: prod.splits option.splits)
qed


text \<open>
  Claim C6. A data datagram for an existing open session whose payload has no bare slash and
  whose POS parses is accepted unless the write raises (it never does for a non-negative POS).
  When it is accepted, the buffer of the session is the buffer after the write, and the last
  datagram sent is \<^verbatim>\<open>/ack/SESSION/n/\<close> to the sender, where \<open>n\<close> is the index of the first empty slot
  of that buffer if it has one and the length of the buffer otherwise.
\<close>

theorem data_reply_is_cumulative_ack:
  assumes "slash \<notin> set sid" and "slash \<notin> set pos"
    and "map_of T sid = Some s" and "\<not> is_closed s"
    and "[slash] \<notin> set (filter (\<lambda>x. x \<noteq> []) (re_split payload))"
    and "py_int pos = Some p"
  shows "(0 \<le> p \<longrightarrow>
            raised (datagram_received T (''/data/'' @ sid @ ''/'' @ pos @ ''/'' @ payload @ ''/'') a) = None)
       \<and> (raised (datagram_received T (''/data/'' @ sid @ ''/'' @ pos @ ''/'' @ payload @ ''/'') a) = None \<longrightarrow>
            (\<exists>s' n.
               map_of (sessions (datagram_received T (''/data/'' @ sid @ ''/'' @ pos @ ''/'' @ payload @ ''/'') a)) sid
                 = Some s'
             \<and> data s' = data (fst (add_data s p (filter (\<lambda>x. x \<noteq> []) (re_split payload))))
             \<and> sent (datagram_received T (''/data/'' @ sid @ ''/'' @ pos @ ''/'' @ payload @ ''/'') a) \<noteq> []
             \<and> last (sent (datagram_received T (''/data/'' @ sid @ ''/'' @ pos @ ''/'' @ payload @ ''/'') a))
                 = (''/ack/'' @ sid @ ''/'' @ str_nat n @ ''/'', a)
             \<and> (if [] \<in> set (data s')
                  then n < length (data s') \<and> data s' ! n = [] \<and> (\<forall>j < n. data s' ! j \<noteq> [])
                  else n = length (data s'))))"
proof -
  let ?toks = "filter (\<lambda>x. x \<noteq> []) (re_split payload)"
  let ?o = "datagram_received T (''/data/'' @ sid @ ''/'' @ pos @ ''/'' @ payload @ ''/'') a"
  let ?s1 = "fst (add_data s p ?toks)"
  note run = recv_data_open [OF assms, of a]
  have nonneg: "raised ?o = None" if "0 \<le> p"
  proof -
    have "snd (add_data s (int (nat p)) ?toks) = None" by (simp only: add_data_nonneg snd_conv)
    then have "snd (add_data s p ?toks) = None" using that by simp
    then show ?thesis unfolding run by (simp add: returns_def)
  qed
  have accepted: "\<exists>s' n. map_of (sessions ?o) sid = Some s' \<and> data s' = data ?s1
       \<and> sent ?o \<noteq> [] \<and> last (sent ?o) = (''/ack/'' @ sid @ ''/'' @ str_nat n @ ''/'', a)
       \<and> (if [] \<in> set (data s')
            then n < length (data s') \<and> data s' ! n = [] \<and> (\<forall>j < n. data s' ! j \<noteq> [])
            else n = length (data s'))"
    if "raised ?o = None"
  proof -
    have ok: "snd (add_data s p ?toks) = None"
      using that unfolding run by (cases "snd (add_data s p ?toks)") (simp_all add: raises_def)
    let ?s' = "fst (handle_data ?s1)"
    have d: "data ?s' = data ?s1" using handle_data_fields by blast
    have o: "?o = returns (AList.update sid ?s' T)
        (snd (handle_data ?s1) @ [(''/ack/'' @ sid @ ''/'' @ str_nat (ack_len (data ?s1)) @ ''/'', a)])"
      unfolding run using ok by simp
    have 1: "map_of (sessions ?o) sid = Some ?s'" unfolding o by (simp add: returns_def map_of_update)
    have 2: "sent ?o \<noteq> []" unfolding o by (simp add: returns_def)
    have 3: "last (sent ?o) = (''/ack/'' @ sid @ ''/'' @ str_nat (ack_len (data ?s1)) @ ''/'', a)"
      unfolding o by (simp add: returns_def)
    have 4: "if [] \<in> set (data ?s')
            then ack_len (data ?s1) < length (data ?s') \<and> data ?s' ! ack_len (data ?s1) = []
                 \<and> (\<forall>j < ack_len (data ?s1). data ?s' ! j \<noteq> [])
            else ack_len (data ?s1) = length (data ?s')"
      unfolding d using ack_len_hole [of "data ?s1"] ack_len_full [of "data ?s1"] by simp
    show ?thesis using 1 d 2 3 4 by blast
  qed
  show ?thesis using nonneg accepted by blast
qed

theorem data_reply_is_cumulative_ack_witness:
  "slash \<notin> set ''1'' \<and> slash \<notin> set ''5''
   \<and> map_of [(''1'', Session ''1'' (''peer'', 4000))] ''1'' = Some (Session ''1'' (''peer'', 4000))
   \<and> \<not> is_closed (Session ''1'' (''peer'', 4000))
   \<and> [slash] \<notin> set (filter (\<lambda>x. x \<noteq> []) (re_split ''ab''))
   \<and> py_int ''5'' = Some 5 \<and> (0::int) \<le> 5
   \<and> raised (datagram_received [(''1'', Session ''1'' (''peer'', 4000))]
              (''/data/'' @ ''1'' @ ''/'' @ ''5'' @ ''/'' @ ''ab'' @ ''/'') (''peer'', 4000)) = None
   \<and> sent (datagram_received [(''1'', Session ''1'' (''peer'', 4000))]
              (''/data/'' @ ''1'' @ ''/'' @ ''5'' @ ''/'' @ ''ab'' @ ''/'') (''peer'', 4000))
       = [(''/ack/1/0/'', (''peer'', 4000))]
   \<and> (\<exists>s' n.
         map_of (sessions (datagram_received [(''1'', Session ''1'' (''peer'', 4000))]
              (''/data/'' @ ''1'' @ ''/'' @ ''5'' @ ''/'' @ ''ab'' @ ''/'') (''peer'', 4000))) ''1'' = Some s'
       \<and> data s' = data (fst (add_data (Session ''1'' (''peer'', 4000)) 5 (filter (\<lambda>x. x \<noteq> []) (re_split ''ab''))))
       \<and> last (sent (datagram_received [(''1'', Session ''1'' (''peer'', 4000))]
              (''/data/'' @ ''1'' @ ''/'' @ ''5'' @ ''/'' @ ''ab'' @ ''/'') (''peer'', 4000)))
           = (''/ack/'' @ ''1'' @ ''/'' @ str_nat n @ ''/'', (''peer'', 4000))
       \<and> n < length (data s') \<and> data s' ! n = [])"
proof -
  let ?a = "(''peer'', 4000 :: nat)"
  let ?T = "[(''1'', Session ''1'' ?a)]"
  let ?o = "datagram_received ?T (''/data/'' @ ''1'' @ ''/'' @ ''5'' @ ''/'' @ ''ab'' @ ''/'') ?a"
  have h1: "slash \<notin> set ''1''" and h2: "slash \<notin> set ''5''" by simp_all
  have h3: "map_of ?T ''1'' = Some (Session ''1'' ?a)" by simp
  have h4: "\<not> is_closed (Session ''1'' ?a)" by (simp add: Session_def)
  have h5: "[slash] \<notin> set (filter (\<lambda>x. x \<noteq> []) (re_split ''ab''))" by code_simp
  have h6: "py_int ''5'' = Some 5" by code_simp
  have r: "raised ?o = None" by code_simp
  have s: "sent ?o = [(''/ack/1/0/'', ?a)]" by code_simp
  have hole: "[] \<in> set (data (fst (add_data (Session ''1'' ?a) 5 (filter (\<lambda>x. x \<noteq> []) (re_split ''ab'')))))"
    by code_simp
  note t = data_reply_is_cumulative_ack [OF h1 h2 h3 h4 h5 h6, of ?a]
  from t r hole have e: "\<exists>s' n.
         map_of (sessions ?o) ''1'' = Some s'
       \<and> data s' = data (fst (add_data (Session ''1'' ?a) 5 (filter (\<lambda>x. x \<noteq> []) (re_split ''ab''))))
       \<and> last (sent ?o) = (''/ack/'' @ ''1'' @ ''/'' @ str_nat n @ ''/'', ?a)
       \<and> n < length (data s') \<and> data s' ! n = []"
    by (metis (no_types, lifting))
  have z: "(0::int) \<le> 5" by simp
  show ?thesis using h1 h2 h3 h4 h5 h6 z r s e by blast
qed


subsection \<open>Every datagram advances every session\<close>

lemma advances_iff:
  "advances s s' \<longleftrightarrow>
     length (data s) \<le> length (data s')
     \<and> (\<forall>i < length (data s). data s ! i \<noteq> [] \<longrightarrow> data s' ! i \<noteq> [])
     \<and> cursor s \<le> cursor s'
     \<and> prefix (send_buffer s) (send_buffer s')"
  by (auto simp: advances_def list_all_iff)

lemma advances_refl: "advances s s"
  by (simp add: advances_iff)

lemma advances_trans: "advances s t \<Longrightarrow> advances t u \<Longrightarrow> advances s u"
  unfolding advances_iff
  by (meson le_trans less_le_trans prefix_order.trans)

lemma advances_add_data: "[] \<notin> set toks \<Longrightarrow> advances s (fst (add_data s p toks))"
proof -
  assume t: "[] \<notin> set toks"
  let ?s = "fst (add_data s p toks)"
  have f: "cursor ?s = cursor s" "send_buffer ?s = send_buffer s"
    by (subst add_data_fields, simp)+
  show ?thesis
    unfolding advances_iff f
    using add_data_length [of s p toks] add_data_keeps_filled [OF t] by simp
qed

lemma advances_handle_data: "advances s (fst (handle_data s))"
  using handle_data_fields [of s] by (simp add: advances_iff)

lemma advances_close: "advances s (fst (handle_data (s\<lparr>is_closed := True\<rparr>)))"
  using handle_data_fields [of "s\<lparr>is_closed := True\<rparr>"] by (simp add: advances_iff)

lemma advances_ack: "advances s (s\<lparr>acked_until := u\<rparr>)"
  by (simp add: advances_iff)

lemma tokens_nonempty: "[] \<notin> set (filter (\<lambda>x. x \<noteq> []) xs)"
  by simp

lemma recv_connect_advances:
  "map_of T k = Some s \<Longrightarrow>
   \<exists>s'. map_of (sessions (recv_connect T rest a)) k = Some s' \<and> advances s s'"
  by (auto simp: recv_connect_def returns_def raises_def map_of_update advances_refl
      split: list.splits option.splits)

lemma recv_close_advances:
  "map_of T k = Some s \<Longrightarrow>
   \<exists>s'. map_of (sessions (recv_close T rest a)) k = Some s' \<and> advances s s'"
  by (auto simp: recv_close_def returns_def raises_def map_of_update advances_refl advances_close Let_def
      split: list.splits option.splits)

lemma recv_ack_advances:
  "map_of T k = Some s \<Longrightarrow>
   \<exists>s'. map_of (sessions (recv_ack T rest a)) k = Some s' \<and> advances s s'"
  by (auto simp: recv_ack_def returns_def raises_def map_of_update advances_refl advances_ack Let_def
      split: list.splits option.splits)

lemma recv_data_advances:
  "map_of T k = Some s \<Longrightarrow>
   \<exists>s'. map_of (sessions (recv_data T rest a)) k = Some s' \<and> advances s s'"
proof -
  assume k: "map_of T k = Some s"
  have w: "\<And>x p toks. [] \<notin> set toks \<Longrightarrow> advances x (fst (handle_data (fst (add_data x p toks))))"
    using advances_add_data advances_handle_data advances_trans by blast
  have fst_eq: "\<And>x p toks s1 e. add_data x p toks = (s1, e) \<Longrightarrow> s1 = fst (add_data x p toks)"
    by simp
  show ?thesis
    using k
    apply (simp add: recv_data_def returns_def raises_def Let_def
        split: list.splits option.splits prod.splits)
    apply (intro allI impI conjI)
    apply (auto simp: map_of_update advances_refl dest!: fst_eq
        intro: advances_add_data [OF tokens_nonempty] w [OF tokens_nonempty])
    done
qed

lemma datagram_received_advances:
  "map_of T k = Some s \<Longrightarrow>
   \<exists>s'. map_of (sessions (datagram_received T dgram a)) k = Some s' \<and> advances s s'"
  using recv_connect_advances recv_data_advances recv_close_advances recv_ack_advances
  by (auto simp: datagram_received_def returns_def raises_def advances_refl
      split: list.splits)


subsection \<open>Delivering the same data datagram again\<close>

lemma ack_len_le: "ack_len d \<le> length d"
  using ack_len_hole [of d] ack_len_full [of d] by (cases "[] \<in> set d") simp_all

lemma add_data_again:
  "add_data (fst (handle_data (fst (add_data s (int q) toks)))) (int q) toks
     = (fst (handle_data (fst (add_data s (int q) toks))), None)"
proof -
  let ?g = "data s @ replicate (q + length toks - length (data s)) []"
  let ?D = "take q ?g @ toks @ drop (q + length toks) ?g"
  let ?s2 = "fst (handle_data (fst (add_data s (int q) toks)))"
  have g: "q + length toks \<le> length ?g" by simp
  have D: "data ?s2 = ?D"
    using handle_data_fields [of "fst (add_data s (int q) toks)"] by (simp add: add_data_nonneg)
  have lt: "length (take q ?g) = q" using g by simp
  have len: "q + length toks \<le> length ?D" using g by simp
  have tk: "take q ?D = take q ?g" using lt by simp
  have "drop (q + length toks) ?D = drop (length toks) (drop q ?D)"
    by (simp add: add.commute)
  also have "drop q ?D = toks @ drop (q + length toks) ?g" using lt by simp
  finally have dr: "drop (q + length toks) ?D = drop (q + length toks) ?g" by simp
  have same: "take q ?D @ toks @ drop (q + length toks) ?D = ?D"
    unfolding tk dr ..
  have "add_data ?s2 (int q) toks
      = (?s2\<lparr>data := take q (data ?s2) @ toks @ drop (q + length toks) (data ?s2)\<rparr>, None)"
    using len by (intro add_data_in_range) (simp only: D)
  also have "?s2\<lparr>data := take q (data ?s2) @ toks @ drop (q + length toks) (data ?s2)\<rparr> = ?s2"
    unfolding D [symmetric] using same D by simp
  finally show ?thesis .
qed

lemma data_redelivered:
  assumes "slash \<notin> set sid" and "slash \<notin> set pos"
    and "map_of T sid = Some s" and "\<not> is_closed s"
    and "[slash] \<notin> set (filter (\<lambda>x. x \<noteq> []) (re_split payload))"
    and "py_int pos = Some p" and "0 \<le> p"
    and "d = ''/data/'' @ sid @ ''/'' @ pos @ ''/'' @ payload @ ''/''"
  shows "datagram_received (sessions (datagram_received T d a)) d a'
     = returns (sessions (datagram_received T d a)) [(fst (last (sent (datagram_received T d a))), a')]"
proof -
  let ?toks = "filter (\<lambda>x. x \<noteq> []) (re_split payload)"
  obtain q where q: "p = int q" using assms(7) by (metis nat_0_le)
  let ?s1 = "fst (add_data s (int q) ?toks)"
  let ?s2 = "fst (handle_data ?s1)"
  let ?ack = "''/ack/'' @ sid @ ''/'' @ str_nat (ack_len (data ?s1)) @ ''/''"
  have ok: "snd (add_data s (int q) ?toks) = None" by (simp only: add_data_nonneg snd_conv)
  have o1: "datagram_received T d a
      = returns (AList.update sid ?s2 T) (snd (handle_data ?s1) @ [(?ack, a)])"
    unfolding assms(8) recv_data_open [OF assms(1-6)] q using ok by simp
  let ?T1 = "AList.update sid ?s2 T"
  have T1: "sessions (datagram_received T d a) = ?T1" unfolding o1 by (simp add: returns_def)
  have last1: "fst (last (sent (datagram_received T d a))) = ?ack"
    unfolding o1 by (simp add: returns_def)
  have m: "map_of ?T1 sid = Some ?s2" by (simp add: map_of_update)
  have d2: "data ?s2 = data ?s1" using handle_data_fields by blast
  have "is_closed ?s2 = is_closed ?s1" using handle_data_fields by blast
  also have "\<dots> = is_closed s" by (subst add_data_fields) simp
  finally have c: "\<not> is_closed ?s2" using assms(4) by simp
  have again: "add_data ?s2 (int q) ?toks = (?s2, None)" by (rule add_data_again)
  have idle: "handle_data ?s2 = (?s2, [])" by (rule handle_data_twice)
  have "datagram_received ?T1 d a' = returns (AList.update sid ?s2 ?T1) [(?ack, a')]"
    unfolding assms(8) recv_data_open [OF assms(1,2) m c assms(5,6)] q
    by (simp add: again idle d2)
  also have "AList.update sid ?s2 ?T1 = ?T1" using m by (rule update_triv)
  finally show ?thesis unfolding T1 last1 .
qed


lemma data_accepted:
  assumes "slash \<notin> set sid" and "slash \<notin> set pos"
    and "map_of T sid = Some s" and "\<not> is_closed s"
    and "[slash] \<notin> set (filter (\<lambda>x. x \<noteq> []) (re_split payload))"
    and "py_int pos = Some p" and "0 \<le> p"
  shows "datagram_received T (''/data/'' @ sid @ ''/'' @ pos @ ''/'' @ payload @ ''/'') a
     = returns
         (AList.update sid
            (fst (handle_data (fst (add_data s p (filter (\<lambda>x. x \<noteq> []) (re_split payload)))))) T)
         (snd (handle_data (fst (add_data s p (filter (\<lambda>x. x \<noteq> []) (re_split payload)))))
          @ [(''/ack/'' @ sid @ ''/''
              @ str_nat (ack_len (data (fst (add_data s p (filter (\<lambda>x. x \<noteq> []) (re_split payload))))))
              @ ''/'', a)])"
proof -
  have "snd (add_data s (int (nat p)) (filter (\<lambda>x. x \<noteq> []) (re_split payload))) = None"
    by (simp only: add_data_nonneg snd_conv)
  then have "snd (add_data s p (filter (\<lambda>x. x \<noteq> []) (re_split payload))) = None"
    using assms(7) by simp
  then show ?thesis unfolding recv_data_open [OF assms(1-6)] by simp
qed

text \<open>
  Claim C9. Whatever datagram arrives, every session of the table is still in the table
  afterwards with a buffer at least as long, every slot that was filled still filled, a read
  cursor at least as large and the old outbound buffer as a prefix of the new one (the
  retransmission tick only sends and has no effect on the table). For a data datagram with a
  non-negative POS accepted by an open session: when its slots lie below the acknowledged
  length the buffer keeps its length, and delivering the datagram once more leaves the whole
  table as the first delivery left it and sends only the same ack, so no line is extracted or
  sent again.
\<close>

theorem filled_slots_and_cursor_never_regress:
  assumes "map_of T k = Some s"
  shows "(\<exists>s'. map_of (sessions (datagram_received T dgram a)) k = Some s'
            \<and> length (data s) \<le> length (data s')
            \<and> (\<forall>i < length (data s). data s ! i \<noteq> [] \<longrightarrow> data s' ! i \<noteq> [])
            \<and> cursor s \<le> cursor s'
            \<and> prefix (send_buffer s) (send_buffer s'))
       \<and> (\<forall>pos payload p.
            dgram = ''/data/'' @ k @ ''/'' @ pos @ ''/'' @ payload @ ''/''
            \<and> slash \<notin> set k \<and> slash \<notin> set pos \<and> \<not> is_closed s
            \<and> [slash] \<notin> set (filter (\<lambda>x. x \<noteq> []) (re_split payload))
            \<and> py_int pos = Some p \<and> 0 \<le> p
            \<longrightarrow>
              (p + int (length (filter (\<lambda>x. x \<noteq> []) (re_split payload))) \<le> int (ack_len (data s))
                 \<longrightarrow> (\<exists>s'. map_of (sessions (datagram_received T dgram a)) k = Some s'
                            \<and> length (data s') = length (data s)))
              \<and> datagram_received (sessions (datagram_received T dgram a)) dgram a'
                  = returns (sessions (datagram_received T dgram a))
                      [(fst (last (sent (datagram_received T dgram a))), a')])"
proof -
  have A: "\<exists>s'. map_of (sessions (datagram_received T dgram a)) k = Some s'
            \<and> length (data s) \<le> length (data s')
            \<and> (\<forall>i < length (data s). data s ! i \<noteq> [] \<longrightarrow> data s' ! i \<noteq> [])
            \<and> cursor s \<le> cursor s'
            \<and> prefix (send_buffer s) (send_buffer s')"
    using datagram_received_advances [OF assms, of dgram a] unfolding advances_iff .
  have B: "(p + int (length (filter (\<lambda>x. x \<noteq> []) (re_split payload))) \<le> int (ack_len (data s))
                 \<longrightarrow> (\<exists>s'. map_of (sessions (datagram_received T dgram a)) k = Some s'
                            \<and> length (data s') = length (data s)))
              \<and> datagram_received (sessions (datagram_received T dgram a)) dgram a'
                  = returns (sessions (datagram_received T dgram a))
                      [(fst (last (sent (datagram_received T dgram a))), a')]"
    if h: "dgram = ''/data/'' @ k @ ''/'' @ pos @ ''/'' @ payload @ ''/''"
      "slash \<notin> set k" "slash \<notin> set pos" "\<not> is_closed s"
      "[slash] \<notin> set (filter (\<lambda>x. x \<noteq> []) (re_split payload))"
      "py_int pos = Some p" "0 \<le> p"
    for pos payload p
  proof -
    let ?toks = "filter (\<lambda>x. x \<noteq> []) (re_split payload)"
    note again = data_redelivered [OF h(2,3) assms h(4,5,6,7,1), of a a']
    have len: "\<exists>s'. map_of (sessions (datagram_received T dgram a)) k = Some s'
                  \<and> length (data s') = length (data s)"
      if full: "p + int (length ?toks) \<le> int (ack_len (data s))"
    proof -
      let ?s' = "fst (handle_data (fst (add_data s p ?toks)))"
      have s': "map_of (sessions (datagram_received T dgram a)) k = Some ?s'"
        unfolding h(1) data_accepted [OF h(2,3) assms h(4,5,6,7)]
        by (simp add: returns_def map_of_update)
      have d: "data ?s' = data (fst (add_data s p ?toks))"
        using handle_data_fields by blast
      have "p + int (length ?toks) \<le> int (length (data s))"
        using full ack_len_le [of "data s"] by linarith
      then have "length (data (fst (add_data s p ?toks))) = length (data s)"
        unfolding add_data_length by simp
      then show ?thesis using s' d by auto
    qed
    show ?thesis using len again by blast
  qed
  show ?thesis using A B by blast
qed


theorem filled_slots_and_cursor_never_regress_witness:
  "map_of [(''1'', \<lparr>id_s = ''1'', addr = (''peer'', 4000), data = [''h'', ''i'', [nl]], cursor = 3,
                      send_cursor = 3, acked_until = 0, is_closed = False,
                      send_buffer = [''i'', ''h'', [nl]]\<rparr>)] ''1''
     = Some \<lparr>id_s = ''1'', addr = (''peer'', 4000), data = [''h'', ''i'', [nl]], cursor = 3,
                      send_cursor = 3, acked_until = 0, is_closed = False,
                      send_buffer = [''i'', ''h'', [nl]]\<rparr>
   \<and> slash \<notin> set ''1'' \<and> slash \<notin> set ''0''
   \<and> [slash] \<notin> set (filter (\<lambda>x. x \<noteq> []) (re_split (''hi'' @ [nl])))
   \<and> py_int ''0'' = Some 0
   \<and> 0 + int (length (filter (\<lambda>x. x \<noteq> []) (re_split (''hi'' @ [nl]))))
        \<le> int (ack_len [''h'', ''i'', [nl]])
   \<and> (\<exists>s'. map_of (sessions (datagram_received
            [(''1'', \<lparr>id_s = ''1'', addr = (''peer'', 4000), data = [''h'', ''i'', [nl]], cursor = 3,
                      send_cursor = 3, acked_until = 0, is_closed = False,
                      send_buffer = [''i'', ''h'', [nl]]\<rparr>)]
            (''/data/'' @ ''1'' @ ''/'' @ ''0'' @ ''/'' @ (''hi'' @ [nl]) @ ''/'') (''peer'', 4000))) ''1'' = Some s'
          \<and> length (data s') = 3 \<and> 3 \<le> cursor s' \<and> prefix [''i'', ''h'', [nl]] (send_buffer s'))
   \<and> datagram_received
        [(''1'', \<lparr>id_s = ''1'', addr = (''peer'', 4000), data = [''h'', ''i'', [nl]], cursor = 3,
                      send_cursor = 3, acked_until = 0, is_closed = False,
                      send_buffer = [''i'', ''h'', [nl]]\<rparr>)]
        (''/data/'' @ ''1'' @ ''/'' @ ''0'' @ ''/'' @ (''hi'' @ [nl]) @ ''/'') (''peer'', 4000)
       = returns
          [(''1'', \<lparr>id_s = ''1'', addr = (''peer'', 4000), data = [''h'', ''i'', [nl]], cursor = 3,
                      send_cursor = 3, acked_until = 0, is_closed = False,
                      send_buffer = [''i'', ''h'', [nl]]\<rparr>)]
          [(''/ack/1/3/'', (''peer'', 4000))]"
proof -
  let ?a = "(''peer'', 4000 :: nat)"
  let ?s = "\<lparr>id_s = ''1'', addr = ?a, data = [''h'', ''i'', [nl]], cursor = 3,
             send_cursor = 3, acked_until = 0, is_closed = False,
             send_buffer = [''i'', ''h'', [nl]]\<rparr>"
  let ?T = "[(''1'', ?s)]"
  let ?d = "''/data/'' @ ''1'' @ ''/'' @ ''0'' @ ''/'' @ (''hi'' @ [nl]) @ ''/''"
  let ?toks = "filter (\<lambda>x. x \<noteq> []) (re_split (''hi'' @ [nl]))"
  have h0: "map_of ?T ''1'' = Some ?s" by simp
  have h1: "slash \<notin> set ''1''" and h2: "slash \<notin> set ''0''" by simp_all
  have h3: "\<not> is_closed ?s" by simp
  have h4: "[slash] \<notin> set ?toks" by code_simp
  have h5: "py_int ''0'' = Some 0" by code_simp
  have h6: "0 + int (length ?toks) \<le> int (ack_len [''h'', ''i'', [nl]])" by code_simp
  have run: "datagram_received ?T ?d ?a = returns ?T [(''/ack/1/3/'', ?a)]" by code_simp
  note t = filled_slots_and_cursor_never_regress [OF h0, of ?d ?a ?a]
  from t [THEN conjunct1] obtain s' where
    A: "map_of (sessions (datagram_received ?T ?d ?a)) ''1'' = Some s'"
       "length (data ?s) \<le> length (data s')" "cursor ?s \<le> cursor s'"
       "prefix (send_buffer ?s) (send_buffer s')"
    by blast
  have z: "(0::int) \<le> 0" by simp
  have hyp: "?d = ''/data/'' @ ''1'' @ ''/'' @ ''0'' @ ''/'' @ (''hi'' @ [nl]) @ ''/''
            \<and> slash \<notin> set ''1'' \<and> slash \<notin> set ''0'' \<and> \<not> is_closed ?s
            \<and> [slash] \<notin> set ?toks \<and> py_int ''0'' = Some 0 \<and> (0::int) \<le> 0"
    using h1 h2 h3 h4 h5 z by blast
  have h6': "0 + int (length ?toks) \<le> int (ack_len (data ?s))" using h6 by simp
  note B0 = t [THEN conjunct2, rule_format, of "''0''" "''hi'' @ [nl]" 0, OF hyp]
  from B0 [THEN conjunct1, rule_format, OF h6'] obtain s'' where
    B: "map_of (sessions (datagram_received ?T ?d ?a)) ''1'' = Some s''"
       "length (data s'') = length (data ?s)"
    by blast
  have "s'' = s'" using A(1) B(1) by simp
  then have e: "\<exists>s'. map_of (sessions (datagram_received ?T ?d ?a)) ''1'' = Some s'
          \<and> length (data s') = 3 \<and> 3 \<le> cursor s' \<and> prefix [''i'', ''h'', [nl]] (send_buffer s')"
    using A B by auto
  show ?thesis using h0 h1 h2 h4 h5 h6 e run by blast
qed


subsection \<open>The tokens of a payload\<close>

lemma re_split_from_concat: "concat (re_split_from skipped s) = skipped @ s"
  by (induction skipped s rule: re_split_from.induct) simp_all

lemma adjacent_nl_Cons: "adjacent_nl ys \<Longrightarrow> adjacent_nl (x # ys)"
  by (cases ys) simp_all

lemma adjacent_nl_append: "adjacent_nl ys \<Longrightarrow> adjacent_nl (xs @ ys)"
  by (induction xs) (simp_all add: adjacent_nl_Cons)

lemma concat_nonempty: "concat (filter (\<lambda>x. x \<noteq> []) xss) = concat xss"
  by (induction xss) simp_all

lemma data_bare_slash:
  assumes "slash \<notin> set sid" and "slash \<notin> set pos"
    and "map_of T sid = Some s" and "\<not> is_closed s"
    and "[slash] \<in> set (filter (\<lambda>x. x \<noteq> []) (re_split payload))"
  shows "datagram_received T (''/data/'' @ sid @ ''/'' @ pos @ ''/'' @ payload @ ''/'') a = returns T []"
  unfolding data_dgram_fields data_dgram recv_data_def data_fields [OF assms(1,2)]
  using assms(3-5) by (simp add: Let_def)

lemma logical_characters_ordinary:
  "c \<noteq> bsl \<Longrightarrow> logical_characters (c # ds) = [c] # logical_characters ds"
  by (cases ds) simp_all

lemma escaped_nl_ordinary: "c \<noteq> bsl \<Longrightarrow> escaped_nl (c # ds) = escaped_nl ds"
  by (cases ds) simp_all

lemma re_split_from_logical:
  "\<not> adjacent_nl (skipped @ s) \<Longrightarrow> \<not> escaped_nl s \<Longrightarrow> skipped = [] \<or> skipped = [nl] \<Longrightarrow>
   filter (\<lambda>x. x \<noteq> []) (re_split_from skipped s)
     = filter (\<lambda>x. x \<noteq> []) [skipped] @ logical_characters s"
proof (induction skipped s rule: re_split_from.induct)
  case (1 skipped)
  show ?case by simp
next
  case (2 skipped c)
  then show ?case by auto
next
  case (3 skipped c d ds)
  show ?case
  proof (cases "c = nl")
    case True
    have sk: "skipped = []"
    proof (rule ccontr)
      assume "skipped \<noteq> []"
      then have "skipped = [nl]" using "3.prems"(3) by simp
      then show False using "3.prems"(1) True by simp
    qed
    have a: "\<not> adjacent_nl ((skipped @ [c]) @ d # ds)" using "3.prems"(1) by simp
    have e: "\<not> escaped_nl (d # ds)" using "3.prems"(2) True by simp
    have k: "skipped @ [c] = [] \<or> skipped @ [c] = [nl]" using sk True by simp
    show ?thesis using "3.IH"(1) [OF True a e k] True sk by simp
  next
    case False
    have rest: "\<not> adjacent_nl (d # ds)" and rest': "\<not> adjacent_nl ds"
      using "3.prems"(1) adjacent_nl_append [of "d # ds" "skipped @ [c]"]
        adjacent_nl_append [of ds "skipped @ [c, d]"] by auto
    show ?thesis
    proof (cases "c = bsl \<and> d \<noteq> nl")
      case True
      have e: "\<not> escaped_nl ds" using "3.prems"(2) True by simp
      show ?thesis using "3.IH"(2) [OF False True _ e] rest' True False by simp
    next
      case no: False
      have ord: "c \<noteq> bsl" using "3.prems"(2) no by auto
      have e: "\<not> escaped_nl (d # ds)" using "3.prems"(2) ord by simp
      show ?thesis using "3.IH"(3) [OF False no _ e] rest ord False no by simp
    qed
  qed
qed

lemma re_split_from_bare_slash:
  "set skipped \<subseteq> {nl} \<Longrightarrow>
   [slash] \<in> set (re_split_from skipped s) \<longleftrightarrow> [slash] \<in> set (logical_characters s)"
proof (induction skipped s rule: re_split_from.induct)
  case (1 skipped)
  then show ?case by auto
next
  case (2 skipped c)
  then show ?case by auto
next
  case (3 skipped c d ds)
  have sk: "skipped \<noteq> [slash]" using "3.prems" by auto
  show ?case
  proof (cases "c = nl")
    case True
    have "set (skipped @ [c]) \<subseteq> {nl}" using "3.prems" True by simp
    then show ?thesis using "3.IH"(1) [OF True] True by simp
  next
    case False
    show ?thesis
    proof (cases "c = bsl \<and> d \<noteq> nl")
      case True
      then show ?thesis using "3.IH"(2) [OF False True] sk False by simp
    next
      case no: False
      have ih: "[slash] \<in> set (re_split_from [] (d # ds)) \<longleftrightarrow> [slash] \<in> set (logical_characters (d # ds))"
        using "3.IH"(3) [OF False no] by simp
      show ?thesis
      proof (cases "c = bsl")
        case ord: False
        then show ?thesis using ih sk False no by simp
      next
        case True
        then have d: "d = nl" using no by simp
        have "logical_characters (d # ds) = [nl] # logical_characters ds"
          using d by (simp add: logical_characters_ordinary)
        then show ?thesis using ih sk False no True d by simp
      qed
    qed
  qed
qed

lemma tokens_logical:
  "\<not> adjacent_nl payload \<Longrightarrow> \<not> escaped_nl payload \<Longrightarrow>
   filter (\<lambda>x. x \<noteq> []) (re_split payload) = logical_characters payload"
  using re_split_from_logical [of "[]" payload] by (simp add: re_split_def)

lemma tokens_bare_slash:
  "[slash] \<in> set (filter (\<lambda>x. x \<noteq> []) (re_split payload))
     \<longleftrightarrow> [slash] \<in> set (logical_characters payload)"
  using re_split_from_bare_slash [of "[]" payload] by (simp add: re_split_def)

lemma logical_characters_shapes:
  "list_all (\<lambda>t. (\<exists>c. t = [c] \<and> c \<noteq> bsl) \<or> (\<exists>d. t = [bsl, d])) (butlast (logical_characters p))
   \<and> (logical_characters p \<noteq> [] \<longrightarrow>
        (\<exists>c. last (logical_characters p) = [c]) \<or> (\<exists>d. last (logical_characters p) = [bsl, d]))"
  by (induction p rule: logical_characters.induct) auto

lemma logical_characters_concat: "concat (logical_characters p) = p"
  by (induction p rule: logical_characters.induct) auto


text \<open>
  Claim C2, as amended. For a payload in which no newline byte comes directly after another
  newline or after an escaping backslash, the tokens written to the buffer are exactly the
  logical characters of the payload read from the left: each is one ordinary byte or a two-byte
  escape pair, a backslash with the byte after it, kept as its two bytes (only a backslash that
  ends the payload stands alone), and together they are the payload. For every payload, a bare
  slash is among the tokens exactly when it is among the logical characters, and then a
  datagram that names an existing open session is dropped: nothing is sent and the table is
  unchanged.
\<close>

theorem payload_tokens_are_logical_characters:
  "(\<not> adjacent_nl payload \<and> \<not> escaped_nl payload \<longrightarrow>
        filter (\<lambda>x. x \<noteq> []) (re_split payload) = logical_characters payload)
   \<and> list_all (\<lambda>t. (\<exists>c. t = [c] \<and> c \<noteq> bsl) \<or> (\<exists>d. t = [bsl, d]))
        (butlast (logical_characters payload))
   \<and> (logical_characters payload \<noteq> [] \<longrightarrow>
        (\<exists>c. last (logical_characters payload) = [c])
        \<or> (\<exists>d. last (logical_characters payload) = [bsl, d]))
   \<and> concat (logical_characters payload) = payload
   \<and> ([slash] \<in> set (filter (\<lambda>x. x \<noteq> []) (re_split payload))
        \<longleftrightarrow> [slash] \<in> set (logical_characters payload))
   \<and> (\<forall>sid pos s.
        slash \<notin> set sid \<and> slash \<notin> set pos \<and> map_of T sid = Some s \<and> \<not> is_closed s
        \<and> [slash] \<in> set (logical_characters payload)
        \<longrightarrow> datagram_received T (''/data/'' @ sid @ ''/'' @ pos @ ''/'' @ payload @ ''/'') a
              = returns T [])"
proof (intro conjI allI impI)
  assume "\<not> adjacent_nl payload \<and> \<not> escaped_nl payload"
  then show "filter (\<lambda>x. x \<noteq> []) (re_split payload) = logical_characters payload"
    using tokens_logical [of payload] by simp
next
  show "list_all (\<lambda>t. (\<exists>c. t = [c] \<and> c \<noteq> bsl) \<or> (\<exists>d. t = [bsl, d]))
        (butlast (logical_characters payload))"
    using logical_characters_shapes [of payload] by (rule conjunct1)
next
  assume "logical_characters payload \<noteq> []"
  then show "(\<exists>c. last (logical_characters payload) = [c])
        \<or> (\<exists>d. last (logical_characters payload) = [bsl, d])"
    using logical_characters_shapes [of payload] by simp
next
  show "concat (logical_characters payload) = payload" by (rule logical_characters_concat)
next
  show "[slash] \<in> set (filter (\<lambda>x. x \<noteq> []) (re_split payload))
        \<longleftrightarrow> [slash] \<in> set (logical_characters payload)"
    by (rule tokens_bare_slash)
next
  fix sid pos s
  assume h: "slash \<notin> set sid \<and> slash \<notin> set pos \<and> map_of T sid = Some s \<and> \<not> is_closed s
        \<and> [slash] \<in> set (logical_characters payload)"
  then have "[slash] \<in> set (filter (\<lambda>x. x \<noteq> []) (re_split payload))"
    using tokens_bare_slash [of payload] by simp
  then show "datagram_received T (''/data/'' @ sid @ ''/'' @ pos @ ''/'' @ payload @ ''/'') a = returns T []"
    using h data_bare_slash [of sid pos T s payload a] by simp
qed

theorem payload_tokens_are_logical_characters_witness:
  "\<not> adjacent_nl (''a'' @ [bsl] @ ''/b'' @ [nl] @ ''c'')
   \<and> \<not> escaped_nl (''a'' @ [bsl] @ ''/b'' @ [nl] @ ''c'')
   \<and> logical_characters (''a'' @ [bsl] @ ''/b'' @ [nl] @ ''c'') = [''a'', [bsl, slash], ''b'', [nl], ''c'']
   \<and> filter (\<lambda>x. x \<noteq> []) (re_split (''a'' @ [bsl] @ ''/b'' @ [nl] @ ''c''))
       = [''a'', [bsl, slash], ''b'', [nl], ''c'']
   \<and> logical_characters ''a/b'' \<noteq> []
   \<and> last (logical_characters ''a/b'') = ''b''
   \<and> slash \<notin> set ''1'' \<and> slash \<notin> set ''0''
   \<and> map_of [(''1'', Session ''1'' (''peer'', 4000))] ''1'' = Some (Session ''1'' (''peer'', 4000))
   \<and> \<not> is_closed (Session ''1'' (''peer'', 4000))
   \<and> [slash] \<in> set (logical_characters ''a/b'')
   \<and> datagram_received [(''1'', Session ''1'' (''peer'', 4000))]
        (''/data/'' @ ''1'' @ ''/'' @ ''0'' @ ''/'' @ ''a/b'' @ ''/'') (''peer'', 4000)
       = returns [(''1'', Session ''1'' (''peer'', 4000))] []"
proof -
  let ?a = "(''peer'', 4000 :: nat)"
  let ?T = "[(''1'', Session ''1'' ?a)]"
  let ?p = "''a'' @ [bsl] @ ''/b'' @ [nl] @ ''c''"
  have n: "\<not> adjacent_nl ?p" by simp
  have e: "\<not> escaped_nl ?p" by simp
  have l: "logical_characters ?p = [''a'', [bsl, slash], ''b'', [nl], ''c'']" by simp
  have v: "filter (\<lambda>x. x \<noteq> []) (re_split ?p) = [''a'', [bsl, slash], ''b'', [nl], ''c'']"
    unfolding l [symmetric]
    by (rule payload_tokens_are_logical_characters
          [of ?p "[]" ?a, THEN conjunct1, THEN mp, OF conjI [OF n e]])
  have ne: "logical_characters ''a/b'' \<noteq> []" by simp
  have la: "last (logical_characters ''a/b'') = ''b''" by simp
  have h1: "slash \<notin> set ''1''" and h2: "slash \<notin> set ''0''" by simp_all
  have h3: "map_of ?T ''1'' = Some (Session ''1'' ?a)" by simp
  have h4: "\<not> is_closed (Session ''1'' ?a)" by (simp add: Session_def)
  have h5: "[slash] \<in> set (logical_characters ''a/b'')" by simp
  have d: "datagram_received ?T (''/data/'' @ ''1'' @ ''/'' @ ''0'' @ ''/'' @ ''a/b'' @ ''/'') ?a
       = returns ?T []"
    by (rule payload_tokens_are_logical_characters
          [of "''a/b''" ?T ?a, THEN conjunct2, THEN conjunct2, THEN conjunct2, THEN conjunct2,
           THEN conjunct2, rule_format, of "''1''" "''0''" "Session ''1'' ?a"])
       (intro conjI h1 h2 h3 h4 h5)
  show ?thesis by (intro conjI n e l v ne la h1 h2 h3 h4 h5 d)
qed

text \<open>
  The claim as first stated has each escape pair collapsed to its escaped byte, and has every
  datagram with a bare slash dropped without a response. The slot written for the pair
  \<^verbatim>\<open>\/\<close> holds both bytes of the pair; and a data datagram for a session that is not in the
  table is answered with a close before its payload is looked at.
\<close>

theorem escape_pair_not_collapsed_counterexample:
  "data (snd (hd (sessions
     (datagram_received (sessions (datagram_received [] ''/connect/1/'' (''peer'', 4000)))
        (''/data/1/0/a'' @ [bsl] @ ''/b/'') (''peer'', 4000)))))
     = [''a'', [bsl, slash], ''b'']
   \<and> data (snd (hd (sessions
     (datagram_received (sessions (datagram_received [] ''/connect/1/'' (''peer'', 4000)))
        (''/data/1/0/a'' @ [bsl] @ ''/b/'') (''peer'', 4000)))))
     \<noteq> [''a'', ''/'', ''b'']
   \<and> datagram_received [] ''/data/9/0/a/b/'' (''peer'', 4000)
     = \<lparr>sessions = [], sent = [(''/close/9/'', (''peer'', 4000))], raised = None\<rparr>"
  by code_simp

subsection \<open>Datagrams that are dropped or refused\<close>

lemma close_dgram:
  "datagram_received T (''/close/'' @ rest @ ''/'') a = recv_close T rest a"
  using framed [of T "''close/'' @ rest" a] py_split_cut [of slash "''close''" 0 rest]
  by simp

lemma ack_dgram:
  "datagram_received T (''/ack/'' @ rest @ ''/'') a = recv_ack T rest a"
  using framed [of T "''ack/'' @ rest" a] py_split_cut [of slash "''ack''" 0 rest]
  by simp

lemma connect_dgram_any:
  "datagram_received T (''/connect/'' @ rest @ ''/'') a = recv_connect T rest a"
  using framed [of T "''connect/'' @ rest" a] py_split_cut [of slash "''connect''" 0 rest]
  by simp

lemma ack_fields:
  "slash \<notin> set sid \<Longrightarrow> slash \<notin> set len \<Longrightarrow>
   py_split slash 2 (sid @ ''/'' @ len) = [sid, len]"
  using py_split_cut [of slash sid 1 len] py_split_no_sep [of slash len 1]
  by (simp add: numeral_2_eq_2)

lemma ack_dgram_fields:
  "''/ack/'' @ sid @ ''/'' @ len @ ''/'' = ''/ack/'' @ (sid @ ''/'' @ len) @ ''/''"
  by simp

lemma connect_nonnumeric_dropped:
  assumes "py_int sid = None"
  shows "sessions (datagram_received T (''/connect/'' @ sid @ ''/'') a) = T
       \<and> sent (datagram_received T (''/connect/'' @ sid @ ''/'') a) = []"
proof (cases "slash \<in> set sid")
  case False
  then show ?thesis unfolding connect_dgram_any
    using assms by (simp add: recv_connect_def py_split_no_sep raises_def)
next
  case True
  then show ?thesis unfolding connect_dgram_any
    by (simp add: recv_connect_def raises_def split: list.splits)
qed

lemma ack_nonnumeric_dropped:
  assumes "slash \<notin> set sid" and "slash \<notin> set len" and "py_int len = None"
  shows "sessions (datagram_received T (''/ack/'' @ sid @ ''/'' @ len @ ''/'') a) = T
       \<and> sent (datagram_received T (''/ack/'' @ sid @ ''/'' @ len @ ''/'') a) = []"
  unfolding ack_dgram_fields ack_dgram recv_ack_def ack_fields [OF assms(1,2)]
  using assms(3) by (simp add: raises_def split: option.splits)

lemma data_nonnumeric_dropped:
  assumes "slash \<notin> set sid" and "slash \<notin> set pos"
    and "map_of T sid = Some s" and "\<not> is_closed s" and "py_int pos = None"
  shows "sessions (datagram_received T (''/data/'' @ sid @ ''/'' @ pos @ ''/'' @ payload @ ''/'') a) = T
       \<and> sent (datagram_received T (''/data/'' @ sid @ ''/'' @ pos @ ''/'' @ payload @ ''/'') a) = []"
  unfolding data_dgram_fields data_dgram recv_data_def data_fields [OF assms(1,2)]
  using assms(3-5) by (simp add: raises_def returns_def Let_def)

lemma data_unknown_closed:
  assumes "slash \<notin> set sid" and "slash \<notin> set pos" and "map_of T sid = None"
  shows "datagram_received T (''/data/'' @ sid @ ''/'' @ pos @ ''/'' @ payload @ ''/'') a
     = returns T [(''/close/'' @ sid @ ''/'', a)]"
  unfolding data_dgram_fields data_dgram recv_data_def data_fields [OF assms(1,2)]
  using assms(3) by simp

lemma close_unknown_dropped:
  assumes "slash \<notin> set sid" and "map_of T sid = None"
  shows "sessions (datagram_received T (''/close/'' @ sid @ ''/'') a) = T
       \<and> sent (datagram_received T (''/close/'' @ sid @ ''/'') a) = []"
  unfolding close_dgram using assms
  by (simp add: recv_close_def py_split_no_sep raises_def)

lemma ack_unknown_dropped:
  assumes "slash \<notin> set sid" and "slash \<notin> set len" and "map_of T sid = None"
  shows "sessions (datagram_received T (''/ack/'' @ sid @ ''/'' @ len @ ''/'') a) = T
       \<and> sent (datagram_received T (''/ack/'' @ sid @ ''/'' @ len @ ''/'') a) = []"
  unfolding ack_dgram_fields ack_dgram recv_ack_def ack_fields [OF assms(1,2)]
  using assms(3) by (simp add: raises_def)

lemma unframed_dropped:
  "length dgram < 2 \<or> hd dgram \<noteq> slash \<or> last dgram \<noteq> slash \<Longrightarrow>
   sessions (datagram_received T dgram a) = T \<and> sent (datagram_received T dgram a) = []"
proof (cases dgram)
  case Nil
  then show ?thesis by (simp add: datagram_received_def raises_def)
next
  case (Cons c cs)
  assume h: "length dgram < 2 \<or> hd dgram \<noteq> slash \<or> last dgram \<noteq> slash"
  show ?thesis
  proof (cases "cs = []")
    case True
    then show ?thesis using Cons by (simp add: datagram_received_def raises_def returns_def)
  next
    case False
    then have "hd dgram \<noteq> slash \<or> last dgram \<noteq> slash" using h Cons by (cases cs) auto
    then show ?thesis using Cons by (auto simp: datagram_received_def returns_def)
  qed
qed

lemma unknown_kind_dropped:
  assumes "takeWhile (\<lambda>c. c \<noteq> slash) body \<notin> {''connect'', ''data'', ''close'', ''ack''}"
  shows "sessions (datagram_received T (''/'' @ body @ ''/'') a) = T
       \<and> sent (datagram_received T (''/'' @ body @ ''/'') a) = []"
proof (cases "slash \<in> set body")
  case True
  then have "py_split slash 1 body
      = [takeWhile (\<lambda>c. c \<noteq> slash) body, tl (dropWhile (\<lambda>c. c \<noteq> slash) body)]"
    by simp
  then show ?thesis using framed [of T body a] assms by (simp add: returns_def)
next
  case False
  then have "py_split slash 1 body = [body]" by (rule py_split_no_sep)
  then show ?thesis using framed [of T body a] by (simp add: raises_def)
qed

text \<open>
  Claim C3, as amended. Dropped, with nothing sent and the table unchanged, are: a datagram of
  fewer than two bytes or without an outer slash; a datagram whose first field is none of the
  four message kinds, whether or not other fields follow; a connect whose SESSION, an ack whose
  LENGTH, and a data datagram for an existing open session whose POS is rejected by \<^verbatim>\<open>int\<close>
  (which takes decimal digits, single underscores between digits, one sign in front and ASCII
  whitespace around, and rejects everything else). A data datagram whose SESSION is not a key
  of the table is answered with \<^verbatim>\<open>/close/SESSION/\<close> and leaves the table unchanged, whatever
  its SESSION and POS look like. A close or an ack whose SESSION is not a key of the table
  leaves the table unchanged and sends nothing.
\<close>

theorem malformed_dropped_and_unknown_session_refused:
  "((length dgram < 2 \<or> hd dgram \<noteq> slash \<or> last dgram \<noteq> slash) \<longrightarrow>
       sessions (datagram_received T dgram a) = T \<and> sent (datagram_received T dgram a) = [])
   \<and> (takeWhile (\<lambda>c. c \<noteq> slash) body \<notin> {''connect'', ''data'', ''close'', ''ack''} \<longrightarrow>
       sessions (datagram_received T (''/'' @ body @ ''/'') a) = T
       \<and> sent (datagram_received T (''/'' @ body @ ''/'') a) = [])
   \<and> (py_int sid1 = None \<longrightarrow>
       sessions (datagram_received T (''/connect/'' @ sid1 @ ''/'') a) = T
       \<and> sent (datagram_received T (''/connect/'' @ sid1 @ ''/'') a) = [])
   \<and> (slash \<notin> set sid2 \<and> slash \<notin> set len2 \<and> py_int len2 = None \<longrightarrow>
       sessions (datagram_received T (''/ack/'' @ sid2 @ ''/'' @ len2 @ ''/'') a) = T
       \<and> sent (datagram_received T (''/ack/'' @ sid2 @ ''/'' @ len2 @ ''/'') a) = [])
   \<and> (slash \<notin> set sid3 \<and> slash \<notin> set pos3 \<and> map_of T sid3 = Some s3 \<and> \<not> is_closed s3
        \<and> py_int pos3 = None \<longrightarrow>
       sessions (datagram_received T (''/data/'' @ sid3 @ ''/'' @ pos3 @ ''/'' @ payload3 @ ''/'') a) = T
       \<and> sent (datagram_received T (''/data/'' @ sid3 @ ''/'' @ pos3 @ ''/'' @ payload3 @ ''/'') a) = [])
   \<and> (slash \<notin> set sid4 \<and> slash \<notin> set pos4 \<and> map_of T sid4 = None \<longrightarrow>
       datagram_received T (''/data/'' @ sid4 @ ''/'' @ pos4 @ ''/'' @ payload4 @ ''/'') a
         = returns T [(''/close/'' @ sid4 @ ''/'', a)])
   \<and> (slash \<notin> set sid5 \<and> slash \<notin> set len5 \<and> map_of T sid5 = None \<longrightarrow>
       sessions (datagram_received T (''/close/'' @ sid5 @ ''/'') a) = T
       \<and> sent (datagram_received T (''/close/'' @ sid5 @ ''/'') a) = []
       \<and> sessions (datagram_received T (''/ack/'' @ sid5 @ ''/'' @ len5 @ ''/'') a) = T
       \<and> sent (datagram_received T (''/ack/'' @ sid5 @ ''/'' @ len5 @ ''/'') a) = [])"
proof (intro conjI impI)
  assume "length dgram < 2 \<or> hd dgram \<noteq> slash \<or> last dgram \<noteq> slash"
  then show "sessions (datagram_received T dgram a) = T" "sent (datagram_received T dgram a) = []"
    using unframed_dropped [of dgram T a] by simp_all
next
  assume "takeWhile (\<lambda>c. c \<noteq> slash) body \<notin> {''connect'', ''data'', ''close'', ''ack''}"
  then show "sessions (datagram_received T (''/'' @ body @ ''/'') a) = T"
    "sent (datagram_received T (''/'' @ body @ ''/'') a) = []"
    using unknown_kind_dropped [of body T a] by simp_all
next
  assume "py_int sid1 = None"
  then show "sessions (datagram_received T (''/connect/'' @ sid1 @ ''/'') a) = T"
    "sent (datagram_received T (''/connect/'' @ sid1 @ ''/'') a) = []"
    using connect_nonnumeric_dropped [of sid1 T a] by simp_all
next
  assume "slash \<notin> set sid2 \<and> slash \<notin> set len2 \<and> py_int len2 = None"
  then show "sessions (datagram_received T (''/ack/'' @ sid2 @ ''/'' @ len2 @ ''/'') a) = T"
    "sent (datagram_received T (''/ack/'' @ sid2 @ ''/'' @ len2 @ ''/'') a) = []"
    using ack_nonnumeric_dropped [of sid2 len2 T a] by simp_all
next
  assume "slash \<notin> set sid3 \<and> slash \<notin> set pos3 \<and> map_of T sid3 = Some s3 \<and> \<not> is_closed s3
        \<and> py_int pos3 = None"
  then show
    "sessions (datagram_received T (''/data/'' @ sid3 @ ''/'' @ pos3 @ ''/'' @ payload3 @ ''/'') a) = T"
    "sent (datagram_received T (''/data/'' @ sid3 @ ''/'' @ pos3 @ ''/'' @ payload3 @ ''/'') a) = []"
    using data_nonnumeric_dropped [of sid3 pos3 T s3 payload3 a] by simp_all
next
  assume "slash \<notin> set sid4 \<and> slash \<notin> set pos4 \<and> map_of T sid4 = None"
  then show "datagram_received T (''/data/'' @ sid4 @ ''/'' @ pos4 @ ''/'' @ payload4 @ ''/'') a
         = returns T [(''/close/'' @ sid4 @ ''/'', a)]"
    using data_unknown_closed [of sid4 pos4 T payload4 a] by simp
next
  assume h: "slash \<notin> set sid5 \<and> slash \<notin> set len5 \<and> map_of T sid5 = None"
  then show "sessions (datagram_received T (''/close/'' @ sid5 @ ''/'') a) = T"
    "sent (datagram_received T (''/close/'' @ sid5 @ ''/'') a) = []"
    using close_unknown_dropped [of sid5 T a] by simp_all
  from h show "sessions (datagram_received T (''/ack/'' @ sid5 @ ''/'' @ len5 @ ''/'') a) = T"
    "sent (datagram_received T (''/ack/'' @ sid5 @ ''/'' @ len5 @ ''/'') a) = []"
    using ack_unknown_dropped [of sid5 len5 T a] by simp_all
qed


theorem malformed_dropped_and_unknown_session_refused_witness:
  "hd ''connect/1/'' \<noteq> slash
   \<and> datagram_received [(''1'', Session ''1'' (''peer'', 4000))] ''connect/1/'' (''peer'', 4000)
       = returns [(''1'', Session ''1'' (''peer'', 4000))] []
   \<and> takeWhile (\<lambda>c. c \<noteq> slash) ''hello/1'' \<notin> {''connect'', ''data'', ''close'', ''ack''}
   \<and> sessions (datagram_received [(''1'', Session ''1'' (''peer'', 4000))]
        (''/'' @ ''hello/1'' @ ''/'') (''peer'', 4000)) = [(''1'', Session ''1'' (''peer'', 4000))]
   \<and> sent (datagram_received [(''1'', Session ''1'' (''peer'', 4000))]
        (''/'' @ ''hello/1'' @ ''/'') (''peer'', 4000)) = []
   \<and> takeWhile (\<lambda>c. c \<noteq> slash) ''foo'' \<notin> {''connect'', ''data'', ''close'', ''ack''}
   \<and> sessions (datagram_received [(''1'', Session ''1'' (''peer'', 4000))]
        (''/'' @ ''foo'' @ ''/'') (''peer'', 4000)) = [(''1'', Session ''1'' (''peer'', 4000))]
   \<and> sent (datagram_received [(''1'', Session ''1'' (''peer'', 4000))]
        (''/'' @ ''foo'' @ ''/'') (''peer'', 4000)) = []
   \<and> py_int ''abc'' = None
   \<and> sessions (datagram_received [(''1'', Session ''1'' (''peer'', 4000))]
        (''/connect/'' @ ''abc'' @ ''/'') (''peer'', 4000)) = [(''1'', Session ''1'' (''peer'', 4000))]
   \<and> sent (datagram_received [(''1'', Session ''1'' (''peer'', 4000))]
        (''/connect/'' @ ''abc'' @ ''/'') (''peer'', 4000)) = []
   \<and> slash \<notin> set ''1'' \<and> slash \<notin> set ''z'' \<and> py_int ''z'' = None
   \<and> sessions (datagram_received [(''1'', Session ''1'' (''peer'', 4000))]
        (''/ack/'' @ ''1'' @ ''/'' @ ''z'' @ ''/'') (''peer'', 4000)) = [(''1'', Session ''1'' (''peer'', 4000))]
   \<and> sent (datagram_received [(''1'', Session ''1'' (''peer'', 4000))]
        (''/ack/'' @ ''1'' @ ''/'' @ ''z'' @ ''/'') (''peer'', 4000)) = []
   \<and> map_of [(''1'', Session ''1'' (''peer'', 4000))] ''1'' = Some (Session ''1'' (''peer'', 4000))
   \<and> \<not> is_closed (Session ''1'' (''peer'', 4000))
   \<and> sessions (datagram_received [(''1'', Session ''1'' (''peer'', 4000))]
        (''/data/'' @ ''1'' @ ''/'' @ ''z'' @ ''/'' @ ''hi'' @ ''/'') (''peer'', 4000))
       = [(''1'', Session ''1'' (''peer'', 4000))]
   \<and> sent (datagram_received [(''1'', Session ''1'' (''peer'', 4000))]
        (''/data/'' @ ''1'' @ ''/'' @ ''z'' @ ''/'' @ ''hi'' @ ''/'') (''peer'', 4000)) = []
   \<and> slash \<notin> set ''abc'' \<and> slash \<notin> set ''0''
   \<and> map_of [(''1'', Session ''1'' (''peer'', 4000))] ''abc'' = None
   \<and> datagram_received [(''1'', Session ''1'' (''peer'', 4000))]
        (''/data/'' @ ''abc'' @ ''/'' @ ''0'' @ ''/'' @ ''x'' @ ''/'') (''peer'', 4000)
       = returns [(''1'', Session ''1'' (''peer'', 4000))] [(''/close/'' @ ''abc'' @ ''/'', (''peer'', 4000))]
   \<and> slash \<notin> set ''2'' \<and> map_of [(''1'', Session ''1'' (''peer'', 4000))] ''2'' = None
   \<and> sessions (datagram_received [(''1'', Session ''1'' (''peer'', 4000))]
        (''/close/'' @ ''2'' @ ''/'') (''peer'', 4000)) = [(''1'', Session ''1'' (''peer'', 4000))]
   \<and> sent (datagram_received [(''1'', Session ''1'' (''peer'', 4000))]
        (''/close/'' @ ''2'' @ ''/'') (''peer'', 4000)) = []
   \<and> sessions (datagram_received [(''1'', Session ''1'' (''peer'', 4000))]
        (''/ack/'' @ ''2'' @ ''/'' @ ''0'' @ ''/'') (''peer'', 4000)) = [(''1'', Session ''1'' (''peer'', 4000))]
   \<and> sent (datagram_received [(''1'', Session ''1'' (''peer'', 4000))]
        (''/ack/'' @ ''2'' @ ''/'' @ ''0'' @ ''/'') (''peer'', 4000)) = []"
proof -
  let ?a = "(''peer'', 4000 :: nat)"
  let ?T = "[(''1'', Session ''1'' ?a)]"
  note t = malformed_dropped_and_unknown_session_refused
    [where dgram = "''connect/1/''" and T = ?T and a = ?a and body = "''hello/1''"
       and ?sid1.0 = "''abc''" and ?sid2.0 = "''1''" and ?len2.0 = "''z''"
       and ?sid3.0 = "''1''" and ?pos3.0 = "''z''" and ?s3.0 = "Session ''1'' ?a" and ?payload3.0 = "''hi''"
       and ?sid4.0 = "''abc''" and ?pos4.0 = "''0''" and ?payload4.0 = "''x''"
       and ?sid5.0 = "''2''" and ?len5.0 = "''0''"]
  note u = malformed_dropped_and_unknown_session_refused
    [where T = ?T and a = ?a and body = "''foo''", THEN conjunct2, THEN conjunct1]
  have f1: "hd ''connect/1/'' \<noteq> slash" by simp
  have f2: "takeWhile (\<lambda>c. c \<noteq> slash) ''hello/1'' \<notin> {''connect'', ''data'', ''close'', ''ack''}"
    by simp
  have g2: "takeWhile (\<lambda>c. c \<noteq> slash) ''foo'' \<notin> {''connect'', ''data'', ''close'', ''ack''}"
    by simp
  have f3: "py_int ''abc'' = None" by code_simp
  have f4: "slash \<notin> set ''1''" "slash \<notin> set ''z''" "py_int ''z'' = None" by (simp, simp, code_simp)
  have f5: "map_of ?T ''1'' = Some (Session ''1'' ?a)" "\<not> is_closed (Session ''1'' ?a)"
    by (simp_all add: Session_def)
  have f6: "slash \<notin> set ''abc''" "slash \<notin> set ''0''" "map_of ?T ''abc'' = None" by simp_all
  have f7: "slash \<notin> set ''2''" "map_of ?T ''2'' = None" by simp_all
  have c1: "sessions (datagram_received ?T ''connect/1/'' ?a) = ?T \<and> sent (datagram_received ?T ''connect/1/'' ?a) = []"
    using t [THEN conjunct1] f1 by blast
  then have c1': "datagram_received ?T ''connect/1/'' ?a = returns ?T []"
    by (simp add: datagram_received_def)
  note c2 = t [THEN conjunct2, THEN conjunct1, THEN mp, OF f2]
  note d2 = u [THEN mp, OF g2]
  note c3 = t [THEN conjunct2, THEN conjunct2, THEN conjunct1, THEN mp, OF f3]
  note c4 = t [THEN conjunct2, THEN conjunct2, THEN conjunct2, THEN conjunct1, THEN mp,
      OF conjI [OF f4(1) conjI [OF f4(2) f4(3)]]]
  note c5 = t [THEN conjunct2, THEN conjunct2, THEN conjunct2, THEN conjunct2, THEN conjunct1, THEN mp,
      OF conjI [OF f4(1) conjI [OF f4(2) conjI [OF f5(1) conjI [OF f5(2) f4(3)]]]]]
  note c6 = t [THEN conjunct2, THEN conjunct2, THEN conjunct2, THEN conjunct2, THEN conjunct2,
      THEN conjunct1, THEN mp, OF conjI [OF f6(1) conjI [OF f6(2) f6(3)]]]
  note c7 = t [THEN conjunct2, THEN conjunct2, THEN conjunct2, THEN conjunct2, THEN conjunct2,
      THEN conjunct2, THEN mp, OF conjI [OF f7(1) conjI [OF f6(2) f7(2)]]]
  show ?thesis
    by (intro conjI f1 c1' f2 c2 [THEN conjunct1] c2 [THEN conjunct2] g2 d2 [THEN conjunct1]
        d2 [THEN conjunct2] f3 c3 [THEN conjunct1] c3 [THEN conjunct2] f4
        c4 [THEN conjunct1] c4 [THEN conjunct2] f5 c5 [THEN conjunct1] c5 [THEN conjunct2] f6 c6 f7
        c7 [THEN conjunct1] c7 [THEN conjunct2, THEN conjunct1]
        c7 [THEN conjunct2, THEN conjunct2, THEN conjunct1]
        c7 [THEN conjunct2, THEN conjunct2, THEN conjunct2])
qed

text \<open>
  The claim as first stated has every datagram with a non-numeric integer argument dropped
  without a response. A data datagram is looked up by the bytes of its SESSION field before
  anything is parsed, so one whose SESSION is no number at all is answered with a close; and
  the arguments are read with \<^verbatim>\<open>int\<close>, which takes more than decimal numerals, so a connect
  whose SESSION is \<^verbatim>\<open>1_0\<close> or \<^verbatim>\<open> 7 \<close> creates a session and is acknowledged.
\<close>

theorem nonnumeric_data_answered_counterexample:
  "py_int ''abc'' = None
   \<and> datagram_received [] ''/data/abc/0/x/'' (''peer'', 4000)
       = \<lparr>sessions = [], sent = [(''/close/abc/'', (''peer'', 4000))], raised = None\<rparr>
   \<and> datagram_received [] ''/connect/1_0/'' (''peer'', 4000)
       = \<lparr>sessions = [(''1_0'', Session ''1_0'' (''peer'', 4000))],
          sent = [(''/ack/1_0/0/'', (''peer'', 4000))], raised = None\<rparr>
   \<and> datagram_received [] ''/connect/ 7 /'' (''peer'', 4000)
       = \<lparr>sessions = [('' 7 '', Session '' 7 '' (''peer'', 4000))],
          sent = [(''/ack/ 7 /0/'', (''peer'', 4000))], raised = None\<rparr>"
  by code_simp

subsection \<open>A line longer than one piece\<close>

lemma re_split_from_plain:
  "c \<noteq> nl \<Longrightarrow> c \<noteq> bsl \<Longrightarrow> re_split_from sk (c # rest) = sk # [c] # re_split_from [] rest"
  by (cases rest) simp_all

lemma tokens_replicate:
  "c \<noteq> nl \<Longrightarrow> c \<noteq> bsl \<Longrightarrow>
   filter (\<lambda>x. x \<noteq> []) (re_split_from [] (replicate n c @ rest))
     = replicate n [c] @ filter (\<lambda>x. x \<noteq> []) (re_split_from [] rest)"
  by (induction n) (simp_all add: re_split_from_plain)

lemma long_line_tokens:
  "filter (\<lambda>x. x \<noteq> []) (re_split (replicate 510 (CHR ''x'') @ [nl, nl] @ ''y'' @ [nl]))
     = replicate 510 ''x'' @ [[nl, nl], ''y'', [nl]]"
proof -
  have "filter (\<lambda>x. x \<noteq> []) (re_split_from [] ([nl, nl] @ ''y'' @ [nl])) = [[nl, nl], ''y'', [nl]]"
    by simp
  then show ?thesis
    unfolding re_split_def using tokens_replicate [of "CHR ''x''" 510 "[nl, nl] @ ''y'' @ [nl]"]
    by simp
qed

lemma long_line_plain:
  assumes "i < 512"
  shows "(replicate 510 ''x'' @ [[nl, nl], ''y'', [nl]]) ! i \<noteq> [nl]"
proof (cases "i < 510")
  case True
  then show ?thesis by (simp add: nth_append)
next
  case False
  then have "i = 510 \<or> i = 511" using assms by arith
  then show ?thesis by (auto simp: nth_append)
qed

lemma long_line_extracted:
  assumes "data s = replicate 510 ''x'' @ [[nl, nl], ''y'', [nl]]" and "cursor s = 0"
  shows "handle_data s =
     handle_data_step 512 (s, [])"
proof -
  have len: "length (data s) = 513" using assms(1) by simp
  have holes: "[] \<notin> set (data s)" using assms(1) by auto
  have "[0..<513] = [0..<512] @ [512]"
    using upt_Suc_append [of 0 512] by simp
  then have "fold handle_data_step [0..<513] (s, []) =
      handle_data_step 512 (fold handle_data_step [0..<512] (s, []))"
    by simp
  moreover have "fold handle_data_step [0..<512] (s, []) = (s, [])"
    by (rule handle_data_loop_idle) (use assms(1) long_line_plain in auto)
  ultimately show ?thesis using holes len assms(2) by (simp add: handle_data_def)
qed


lemma concat_replicate_char: "concat (replicate n [c]) = replicate n c"
  by (induction n) simp_all

lemma str_nat_0: "str_nat 0 = ''0''" by code_simp
lemma str_nat_512: "str_nat 512 = ''512''" by code_simp
lemma str_nat_513: "str_nat 513 = ''513''" by code_simp

lemma long_line_sent:
  "send_data \<lparr>id_s = ''1'', addr = a, data = d, cursor = c, send_cursor = sc, acked_until = u,
       is_closed = False, send_buffer = [''y'', [nl, nl]] @ replicate 510 ''x'' @ [[nl]]\<rparr>
     = [(''/data/1/0/y'' @ [nl, nl] @ replicate 510 (CHR ''x'') @ ''/'', a),
        (''/data/1/512/'' @ [nl] @ ''/'', a)]"
proof -
  have n: "(513 + 511) div 512 = (2::nat)" by simp
  have u: "[0..<2] = [0, Suc 0]" by (simp add: numeral_2_eq_2)
  show ?thesis
    unfolding send_data_pieces
    by (simp add: n u str_nat_0 str_nat_512 concat_replicate_char)
qed

text \<open>
  Claim C8. Delivery is triggered here by line extraction, on a data datagram whose line is
  longer than one piece and holds two adjacent newlines. The whole outbound buffer is sent from
  its start, but the pieces are cut by buffer slots: the two newlines share one slot, so the
  first piece carries 513 bytes of the outbound stream and the second piece, which starts at
  byte 513, goes out under OFFSET 512.
\<close>

theorem piece_offset_counts_slots_not_bytes:
  "datagram_received (sessions (datagram_received [] ''/connect/1/'' (''peer'', 4000)))
     (''/data/1/0/'' @ replicate 510 (CHR ''x'') @ [nl, nl] @ ''y'' @ [nl] @ ''/'') (''peer'', 4000)
   = \<lparr>sessions = [(''1'', \<lparr>id_s = ''1'', addr = (''peer'', 4000),
                       data = replicate 510 ''x'' @ [[nl, nl], ''y'', [nl]], cursor = 513,
                       send_cursor = 513, acked_until = 0, is_closed = False,
                       send_buffer = [''y'', [nl, nl]] @ replicate 510 ''x'' @ [[nl]]\<rparr>)],
      sent = [(''/data/1/0/y'' @ [nl, nl] @ replicate 510 (CHR ''x'') @ ''/'', (''peer'', 4000)),
              (''/data/1/512/'' @ [nl] @ ''/'', (''peer'', 4000)),
              (''/ack/1/513/'', (''peer'', 4000))],
      raised = None\<rparr>"
proof -
  let ?a = "(''peer'', 4000 :: nat)"
  let ?s0 = "Session ''1'' ?a"
  let ?T0 = "[(''1'', ?s0)]"
  let ?P = "replicate 510 (CHR ''x'') @ [nl, nl] @ ''y'' @ [nl]"
  let ?toks = "replicate 510 ''x'' @ [[nl, nl], ''y'', [nl]]"
  let ?s1 = "?s0\<lparr>data := ?toks\<rparr>"
  have conn: "sessions (datagram_received [] ''/connect/1/'' ?a) = ?T0" by code_simp
  have dg: "''/data/1/0/'' @ ?P @ ''/'' = ''/data/'' @ ''1'' @ ''/'' @ ''0'' @ ''/'' @ ?P @ ''/''"
    by simp
  have h1: "slash \<notin> set ''1''" and h2: "slash \<notin> set ''0''" by simp_all
  have h3: "map_of ?T0 ''1'' = Some ?s0" by simp
  have h4: "\<not> is_closed ?s0" by (simp add: Session_def)
  have h5: "[slash] \<notin> set (filter (\<lambda>x. x \<noteq> []) (re_split ?P))"
    unfolding long_line_tokens by simp
  have h6: "py_int ''0'' = Some 0" by code_simp
  have add: "add_data ?s0 0 ?toks = (?s1, None)"
    using add_data_nonneg [of ?s0 0 ?toks] by (simp add: Session_def)
  have ext: "handle_data ?s1 = handle_data_step 512 (?s1, [])"
    by (rule long_line_extracted) (simp_all add: Session_def)
  have step: "handle_data_step 512 (?s1, []) =
      (\<lparr>id_s = ''1'', addr = ?a, data = ?toks, cursor = 513, send_cursor = 513, acked_until = 0,
         is_closed = False, send_buffer = [''y'', [nl, nl]] @ replicate 510 ''x'' @ [[nl]]\<rparr>,
       [(''/data/1/0/y'' @ [nl, nl] @ replicate 510 (CHR ''x'') @ ''/'', ?a),
        (''/data/1/512/'' @ [nl] @ ''/'', ?a)])"
    unfolding handle_data_step_def
    using long_line_sent [of ?a ?toks 0 0 0]
    by (simp add: Session_def Let_def nth_append)
  have ack: "ack_len ?toks = 513" by (subst ack_len_full) auto
  have run: "datagram_received ?T0 (''/data/'' @ ''1'' @ ''/'' @ ''0'' @ ''/'' @ ?P @ ''/'') ?a
      = \<lparr>sessions = [(''1'', \<lparr>id_s = ''1'', addr = ?a, data = ?toks, cursor = 513,
                       send_cursor = 513, acked_until = 0, is_closed = False,
                       send_buffer = [''y'', [nl, nl]] @ replicate 510 ''x'' @ [[nl]]\<rparr>)],
         sent = [(''/data/1/0/y'' @ [nl, nl] @ replicate 510 (CHR ''x'') @ ''/'', ?a),
                 (''/data/1/512/'' @ [nl] @ ''/'', ?a),
                 (''/ack/1/513/'', ?a)],
         raised = None\<rparr>"
    unfolding data_accepted [OF h1 h2 h3 h4 h5 h6 order_refl, of ?a] long_line_tokens
    by (simp add: add ext step ack returns_def str_nat_513)
  show ?thesis unfolding conn using run by simp
qed

theorem piece_offset_counts_slots_not_bytes_witness:
  "sent (datagram_received (sessions (datagram_received [] ''/connect/1/'' (''peer'', 4000)))
     (''/data/1/0/'' @ replicate 510 (CHR ''x'') @ [nl, nl] @ ''y'' @ [nl] @ ''/'') (''peer'', 4000)) ! 1
   = (''/data/1/512/'' @ [nl] @ ''/'', (''peer'', 4000))"
  using piece_offset_counts_slots_not_bytes by simp


end
